theory Spec2Isabelle
  imports Complex_Main "HOL-Library.Multiset"
begin

section \<open>Robust Rank Aggregation (RRA.c): data model\<close>

text \<open>
  The C type \<open>double\<close> is modelled by \<open>real\<close>: rounding, infinities and NaN are outside
  the model. The C type \<open>int\<close> is modelled by \<open>int\<close> (loop counters that only count
  upwards from 0 by \<open>nat\<close>); the program keeps every count below \<open>MAX_GROUP_NUM\<close> times a
  small constant, far from the 32-bit limit. An array together with its element count
  (\<open>items\<close>/\<open>itemNum\<close>, \<open>values\<close>/\<open>itemNum\<close>, \<open>groups\<close>/\<open>groupNum\<close>) is a list, the count
  being its length. \<open>malloc\<close> is taken to succeed, except in the model of \<open>ComputeLoValue\<close>
  on a store, where its result is a parameter.
\<close>

record ITEM_STRUCT =
  item_name :: string
  listIndex :: int
  item_value :: real
  percentile :: real

record GROUP_STRUCT =
  group_name :: string
  items :: "ITEM_STRUCT list"
  loValue :: real
  fdr :: real


definition itemNum :: "GROUP_STRUCT \<Rightarrow> nat" where
  "itemNum g = length (items g)"


text \<open>A failed \<open>assert\<close>, a division by zero and an access outside an array end the run.\<close>

datatype error = AssertionFailed | DivisionByZero | OutOfBounds

definition CDF_MAX_ERROR :: real where
  "CDF_MAX_ERROR = 1 / 10 ^ 10"

definition EPS :: real where
  "EPS = 1 / 10 ^ 9"

section \<open>The numerical services of math\_api, rvgs and rngs\<close>

text \<open>
  The Beta evaluator \<open>BetaNoncentralCdf(a, b, lambda, x, errmax)\<close> is a parameter of the
  model, of this type; nothing is assumed about it except where a theorem says so.
\<close>

type_synonym cdf_fun = "real \<Rightarrow> real \<Rightarrow> real \<Rightarrow> real \<Rightarrow> real \<Rightarrow> real"

text \<open>
  Modelled from the spec: \<open>QuicksortF\<close> of math\_api, whose code is not part of the
  sources at hand. The spec's \<open>sort(values)\<close> "sorts a numeric sequence ascending, in
  place"; every call in RRA.c is \<open>QuicksortF(a, 0, n - 1)\<close> on an array of \<open>n\<close> values, and
  the list is that array.
\<close>

definition QuicksortF :: "real list \<Rightarrow> real list" where
  "QuicksortF vals = sort vals"

text \<open>
  Modelled from the spec: \<open>bTreeSearchingF\<close> of math\_api, whose code is not part of the
  sources at hand. The spec's \<open>rankBelow(threshold, sortedValues)\<close> "returns the count of
  elements strictly less than threshold in a sorted sequence"; every call in RRA.c is
  \<open>bTreeSearchingF(x, a, 0, n - 1)\<close> on an array of \<open>n\<close> values.
\<close>

definition bTreeSearchingF :: "real \<Rightarrow> real list \<Rightarrow> int" where
  "bTreeSearchingF x vals = int (length (filter (\<lambda>v. v < x) vals))"

section \<open>ComputeLoValue\<close>

text \<open>
  The \<open>for\<close> loop of \<open>ComputeLoValue\<close>: \<open>i\<close> is the loop counter, \<open>tmpLoValue\<close> the running
  minimum, \<open>tmpArray\<close> the sorted copy and \<open>num\<close> its length.
\<close>

function ComputeLoValue_loop :: "cdf_fun \<Rightarrow> real list \<Rightarrow> real \<Rightarrow> nat \<Rightarrow> real \<Rightarrow> real" where
  "ComputeLoValue_loop cdf tmpArray maxPercentile i tmpLoValue =
     (if i < length tmpArray then
        (if tmpArray ! i > maxPercentile \<and> i > 0 then tmpLoValue
         else
           (let tmpF = cdf (real (i + 1)) (real (length tmpArray - i)) 0 (tmpArray ! i) CDF_MAX_ERROR
            in ComputeLoValue_loop cdf tmpArray maxPercentile (i + 1)
                 (if tmpF < tmpLoValue then tmpF else tmpLoValue)))
      else tmpLoValue)"
  by pat_completeness auto
termination
  by (relation "measure (\<lambda>(cdf, tmpArray, maxPercentile, i, tmpLoValue). length tmpArray - i)") auto

declare ComputeLoValue_loop.simps [simp del]

text \<open>
  \<open>ComputeLoValue(percentiles, num, &loValue, maxPercentile)\<close>: the list is the \<open>num\<close>
  values that \<open>memcpy\<close> reads; the result is the value stored through \<open>loValue\<close>.
\<close>

definition ComputeLoValue :: "cdf_fun \<Rightarrow> real list \<Rightarrow> real \<Rightarrow> error + real" where
  "ComputeLoValue cdf percentiles maxPercentile =
     (if length percentiles > 0
      then Inr (ComputeLoValue_loop cdf (QuicksortF percentiles) maxPercentile 0 1)
      else Inl AssertionFailed)"

text \<open>
  The claim's description of the scan, written from its words: the number of scanned
  indices is one more than the length of the longest run, after the first sorted
  percentile, of percentiles that do not exceed the cutoff.
\<close>

definition scan_stop :: "real list \<Rightarrow> real \<Rightarrow> nat" where
  "scan_stop s maxPercentile =
     (if s = [] then 0 else Suc (length (takeWhile (\<lambda>p. \<not> maxPercentile < p) (tl s))))"

definition order_cdf :: "cdf_fun \<Rightarrow> real list \<Rightarrow> nat \<Rightarrow> real" where
  "order_cdf cdf s i = cdf (real (i + 1)) (real (length s - i)) 0 (s ! i) CDF_MAX_ERROR"

text \<open>
  An evaluator to run the model on: for whole-number shapes \<open>(k, n - k + 1)\<close> the central
  Beta distribution function is that of the \<open>k\<close>-th order statistic of \<open>n\<close> uniform draws,
  a binomial tail sum.
\<close>

definition order_stat_cdf :: "nat \<Rightarrow> nat \<Rightarrow> real \<Rightarrow> real" where
  "order_stat_cdf k n x = (\<Sum>j\<leftarrow>[k..<Suc n]. real (n choose j) * x ^ j * (1 - x) ^ (n - j))"

definition beta_cdf_whole :: cdf_fun where
  "beta_cdf_whole a b lam x errmax = order_stat_cdf (nat \<lfloor>a\<rfloor>) (nat \<lfloor>a + b\<rfloor> - 1) x"

section \<open>ComputeLoValue on a store\<close>

text \<open>
  The same function with its effects on memory. The store maps the address of an
  allocated block to the doubles it holds, and a pointer is a block address with an offset
  into the block. \<open>malloc_result\<close> is what \<open>malloc\<close> returns: \<open>None\<close> is the null pointer,
  on which the function returns \<open>-1\<close>. The new block receives the \<open>num\<close> values copied by
  \<open>memcpy\<close>, is sorted in place and scanned; the result is stored through \<open>loValue\<close> and the
  block is freed. Reading or writing outside an allocated block is an error.
\<close>

type_synonym store = "nat \<Rightarrow> real list option"

definition ComputeLoValue_store ::
  "cdf_fun \<Rightarrow> nat option \<Rightarrow> store \<Rightarrow> nat \<times> nat \<Rightarrow> int \<Rightarrow> nat \<times> nat \<Rightarrow> real \<Rightarrow> error + (int \<times> store)" where
  "ComputeLoValue_store cdf malloc_result st percentiles num loValue_p maxPercentile =
     (if \<not> 0 < num then Inl AssertionFailed
      else
        (case malloc_result of
           None \<Rightarrow> Inr (- 1, st)
         | Some tmpArray \<Rightarrow>
             (case st (fst percentiles) of
                None \<Rightarrow> Inl OutOfBounds
              | Some src \<Rightarrow>
                  if \<not> snd percentiles + nat num \<le> length src then Inl OutOfBounds
                  else
                    (let tmpCopy = take (nat num) (drop (snd percentiles) src);
                         st1 = st(tmpArray \<mapsto> tmpCopy);
                         tmpSorted = QuicksortF tmpCopy;
                         st2 = st1(tmpArray \<mapsto> tmpSorted);
                         tmpLoValue = ComputeLoValue_loop cdf tmpSorted maxPercentile 0 1
                     in case st2 (fst loValue_p) of
                          None \<Rightarrow> Inl OutOfBounds
                        | Some dst \<Rightarrow>
                            if \<not> snd loValue_p < length dst then Inl OutOfBounds
                            else Inr (0, (st2(fst loValue_p \<mapsto> dst[snd loValue_p := tmpLoValue]))
                                           (tmpArray := None))))))"

section \<open>ProcessGroups\<close>





text \<open>The largest item count of a group, as the first loop of both stages computes it.\<close>

definition max_itemNum :: "GROUP_STRUCT list \<Rightarrow> nat" where
  "max_itemNum groups = foldl (\<lambda>m g. if itemNum g > m then itemNum g else m) 0 groups"


section \<open>QuickSortGroupByLoValue\<close>

text \<open>Reading \<open>groups[i].loValue\<close>; an index outside the array is an error.\<close>

definition rd_loValue :: "GROUP_STRUCT list \<Rightarrow> int \<Rightarrow> error + real" where
  "rd_loValue groups i =
     (if 0 \<le> i \<and> i < int (length groups) then Inr (loValue (groups ! nat i)) else Inl OutOfBounds)"

text \<open>
  The first inner loop, \<open>while ((groups[i].loValue<x)&&(i<=j)) i++\<close>: the element is read
  before \<open>i<=j\<close> is tested.
\<close>

function scan_up :: "GROUP_STRUCT list \<Rightarrow> real \<Rightarrow> int \<Rightarrow> int \<Rightarrow> error + int" where
  "scan_up groups x i j =
     (case rd_loValue groups i of
        Inl e \<Rightarrow> Inl e
      | Inr v \<Rightarrow> if v < x \<and> i \<le> j then scan_up groups x (i + 1) j else Inr i)"
  by pat_completeness auto
termination
  by (relation "measure (\<lambda>(groups, x, i, j). nat (j + 1 - i))") auto

text \<open>The second inner loop, \<open>while ((groups[j].loValue>x)&&(i<=j)) j--\<close>.\<close>

function scan_down :: "GROUP_STRUCT list \<Rightarrow> real \<Rightarrow> int \<Rightarrow> int \<Rightarrow> error + int" where
  "scan_down groups x i j =
     (case rd_loValue groups j of
        Inl e \<Rightarrow> Inl e
      | Inr v \<Rightarrow> if v > x \<and> i \<le> j then scan_down groups x i (j - 1) else Inr j)"
  by pat_completeness auto
termination
  by (relation "measure (\<lambda>(groups, x, i, j). nat (j + 1 - i))") auto

declare scan_up.simps [simp del] scan_down.simps [simp del]

text \<open>The three \<open>memcpy\<close> calls that exchange \<open>groups[i]\<close> and \<open>groups[j]\<close>.\<close>

definition swap_groups :: "GROUP_STRUCT list \<Rightarrow> int \<Rightarrow> int \<Rightarrow> GROUP_STRUCT list" where
  "swap_groups groups i j = groups[nat i := groups ! nat j, nat j := groups ! nat i]"

text \<open>The partition loop \<open>while (i<=j)\<close>; it returns the array and the final \<open>i\<close> and \<open>j\<close>.\<close>

function partition_loop ::
  "GROUP_STRUCT list \<Rightarrow> real \<Rightarrow> int \<Rightarrow> int \<Rightarrow> error + (GROUP_STRUCT list \<times> int \<times> int)" where
  "partition_loop groups x i j =
     (if i \<le> j then
        (case scan_up groups x i j of
           Inl e \<Rightarrow> Inl e
         | Inr i1 \<Rightarrow>
             (case scan_down groups x i1 j of
                Inl e \<Rightarrow> Inl e
              | Inr j1 \<Rightarrow>
                  if i1 \<le> j1 then partition_loop (swap_groups groups i1 j1) x (i1 + 1) (j1 - 1)
                  else partition_loop groups x i1 j1))
      else Inr (groups, i, j))"
  by pat_completeness auto

text \<open>C's integer division, which truncates towards zero.\<close>

definition c_div :: "int \<Rightarrow> int \<Rightarrow> int" where
  "c_div a b = sgn a * sgn b * (\<bar>a\<bar> div \<bar>b\<bar>)"

text \<open>
  \<open>QuickSortGroupByLoValue(groups, lo, hi)\<close>: the pivot \<open>groups[(lo+hi)/2].loValue\<close> is read
  in the declarations, before \<open>hi<lo\<close> is tested.
\<close>

function QuickSortGroupByLoValue :: "GROUP_STRUCT list \<Rightarrow> int \<Rightarrow> int \<Rightarrow> error + GROUP_STRUCT list" where
  "QuickSortGroupByLoValue groups lo hi =
     (case rd_loValue groups (c_div (lo + hi) 2) of
        Inl e \<Rightarrow> Inl e
      | Inr x \<Rightarrow>
          if hi < lo then Inr groups
          else
            (case partition_loop groups x lo hi of
               Inl e \<Rightarrow> Inl e
             | Inr (groups1, i, j) \<Rightarrow>
                 (case (if lo < j then QuickSortGroupByLoValue groups1 lo j else Inr groups1) of
                    Inl e \<Rightarrow> Inl e
                  | Inr groups2 \<Rightarrow>
                      if i < hi then QuickSortGroupByLoValue groups2 i hi else Inr groups2)))"
  by pat_completeness auto

section \<open>ComputeFDR\<close>

text \<open>
  The generator of rngs and rvgs is process-wide state in C; here it is a value of a type
  \<open>'r\<close> threaded through the calls. \<open>PlantSeeds\<close> and \<open>Uniform\<close> are parameters of the model.
\<close>

type_synonym 'r plant_fun = "int \<Rightarrow> 'r \<Rightarrow> 'r"
type_synonym 'r uniform_fun = "real \<Rightarrow> real \<Rightarrow> 'r \<Rightarrow> real \<times> 'r"

text \<open>The innermost loop: \<open>tmpPercentile[k] = Uniform(0.0, 1.0)\<close> for \<open>k\<close> from 0 upwards.\<close>

fun draw_percentiles :: "'r uniform_fun \<Rightarrow> nat \<Rightarrow> 'r \<Rightarrow> real list \<times> 'r" where
  "draw_percentiles Uniform 0 rng = ([], rng)"
| "draw_percentiles Uniform (Suc k) rng =
     (let (u, rng1) = Uniform 0 1 rng;
          (us, rng2) = draw_percentiles Uniform k rng1
      in (u # us, rng2))"

text \<open>One pass over the groups (the loop on \<open>j\<close>): one synthetic lo-value per group.\<close>

fun rand_pass ::
  "cdf_fun \<Rightarrow> 'r uniform_fun \<Rightarrow> real \<Rightarrow> GROUP_STRUCT list \<Rightarrow> 'r \<Rightarrow> error + (real list \<times> 'r)" where
  "rand_pass cdf Uniform maxPercentile [] rng = Inr ([], rng)"
| "rand_pass cdf Uniform maxPercentile (g # gs) rng =
     (let (tmpPercentile, rng1) = draw_percentiles Uniform (itemNum g) rng
      in case ComputeLoValue cdf tmpPercentile maxPercentile of
           Inl e \<Rightarrow> Inl e
         | Inr lo \<Rightarrow>
             (case rand_pass cdf Uniform maxPercentile gs rng1 of
                Inl e \<Rightarrow> Inl e
              | Inr (los, rng2) \<Rightarrow> Inr (lo # los, rng2)))"

text \<open>The passes (the loop on \<open>i\<close>), appending to \<open>randLoValue\<close>.\<close>

fun rand_passes ::
  "cdf_fun \<Rightarrow> 'r uniform_fun \<Rightarrow> real \<Rightarrow> GROUP_STRUCT list \<Rightarrow> nat \<Rightarrow> 'r \<Rightarrow> error + (real list \<times> 'r)" where
  "rand_passes cdf Uniform maxPercentile groups 0 rng = Inr ([], rng)"
| "rand_passes cdf Uniform maxPercentile groups (Suc n) rng =
     (case rand_pass cdf Uniform maxPercentile groups rng of
        Inl e \<Rightarrow> Inl e
      | Inr (los, rng1) \<Rightarrow>
          (case rand_passes cdf Uniform maxPercentile groups n rng1 of
             Inl e \<Rightarrow> Inl e
           | Inr (los', rng2) \<Rightarrow> Inr (los @ los', rng2)))"

definition ComputeFDR_scanPass :: "int \<Rightarrow> int \<Rightarrow> int" where
  "ComputeFDR_scanPass numOfRandPass groupNum = c_div numOfRandPass groupNum + 1"

text \<open>
  The value stored in \<open>groups[i].fdr\<close> by the loop after the two sorts; \<open>randLoValueNum\<close>
  is the length of \<open>randLoValue\<close>.
\<close>

definition fdr_value :: "real list \<Rightarrow> nat \<Rightarrow> nat \<Rightarrow> real \<Rightarrow> real" where
  "fdr_value randLoValue groupNum i lo =
     real_of_int (bTreeSearchingF (lo - EPS) randLoValue + bTreeSearchingF (lo + EPS) randLoValue + 1)
       / 2 / real (length randLoValue) / (real i + 0.5) * real groupNum"

fun assign_fdr :: "real list \<Rightarrow> nat \<Rightarrow> nat \<Rightarrow> GROUP_STRUCT list \<Rightarrow> GROUP_STRUCT list" where
  "assign_fdr randLoValue groupNum i [] = []"
| "assign_fdr randLoValue groupNum i (g # gs) =
     g\<lparr>fdr := fdr_value randLoValue groupNum i (loValue g)\<rparr> # assign_fdr randLoValue groupNum (Suc i) gs"

text \<open>\<open>if (groups[groupNum-1].fdr>1.0) groups[groupNum-1].fdr = 1.0\<close>, for \<open>groupNum > 0\<close>.\<close>

definition clamp_last :: "GROUP_STRUCT list \<Rightarrow> GROUP_STRUCT list" where
  "clamp_last groups =
     (let k = length groups - 1
      in if fdr (groups ! k) > 1 then groups[k := (groups ! k)\<lparr>fdr := 1\<rparr>] else groups)"

text \<open>
  The last loop, \<open>for (i=groupNum-2;i>=0;i--)\<close>: \<open>sweep n groups\<close> runs the rounds
  \<open>i = n - 1, \<dots>, 0\<close>.
\<close>

fun sweep :: "nat \<Rightarrow> GROUP_STRUCT list \<Rightarrow> GROUP_STRUCT list" where
  "sweep 0 groups = groups"
| "sweep (Suc i) groups =
     sweep i (if fdr (groups ! i) > fdr (groups ! (i + 1))
              then groups[i := (groups ! i)\<lparr>fdr := fdr (groups ! (i + 1))\<rparr>]
              else groups)"

text \<open>
  \<open>ComputeFDR\<close> up to and including the loop that stores the first \<open>fdr\<close> values: the
  result is the sorted groups with these values, the sorted pool \<open>randLoValue\<close> and the
  generator.
\<close>

definition ComputeFDR_assign ::
  "cdf_fun \<Rightarrow> 'r plant_fun \<Rightarrow> 'r uniform_fun \<Rightarrow> GROUP_STRUCT list \<Rightarrow> real \<Rightarrow> int \<Rightarrow> 'r
   \<Rightarrow> error + (GROUP_STRUCT list \<times> real list \<times> 'r)" where
  "ComputeFDR_assign cdf PlantSeeds Uniform groups maxPercentile numOfRandPass rng =
     (let groupNum = int (length groups) in
      if groupNum = 0 then Inl DivisionByZero
      else
        (let scanPass = ComputeFDR_scanPass numOfRandPass groupNum in
         if \<not> max_itemNum groups > 0 then Inl AssertionFailed
         else if \<not> groupNum * scanPass > 0 then Inl AssertionFailed
         else
           (case rand_passes cdf Uniform maxPercentile groups (nat scanPass) (PlantSeeds 123456 rng) of
              Inl e \<Rightarrow> Inl e
            | Inr (pool, rng1) \<Rightarrow>
                (let randLoValue = QuicksortF pool in
                 case QuickSortGroupByLoValue groups 0 (groupNum - 1) of
                   Inl e \<Rightarrow> Inl e
                 | Inr sorted_groups \<Rightarrow>
                     Inr (assign_fdr randLoValue (length groups) 0 sorted_groups, randLoValue, rng1)))))"

definition ComputeFDR ::
  "cdf_fun \<Rightarrow> 'r plant_fun \<Rightarrow> 'r uniform_fun \<Rightarrow> GROUP_STRUCT list \<Rightarrow> real \<Rightarrow> int \<Rightarrow> 'r
   \<Rightarrow> error + (GROUP_STRUCT list \<times> 'r)" where
  "ComputeFDR cdf PlantSeeds Uniform groups maxPercentile numOfRandPass rng =
     (case ComputeFDR_assign cdf PlantSeeds Uniform groups maxPercentile numOfRandPass rng of
        Inl e \<Rightarrow> Inl e
      | Inr (groups1, randLoValue, rng1) \<Rightarrow>
          Inr (sweep (length groups1 - 1) (clamp_last groups1), rng1))"

section \<open>Concrete inputs\<close>







text \<open>A store with the array of scenario B in block 0 and a block for results.\<close>

definition lo_store :: store where
  "lo_store = Map.empty(0 \<mapsto> [9/10, 1/10, 1/5], 1 \<mapsto> [0, 0])"

text \<open>
  A small generator to run \<open>ComputeFDR\<close> on: a multiplicative congruential generator
  modulo 31, the state being the last number produced.
\<close>

definition small_PlantSeeds :: "nat plant_fun" where
  "small_PlantSeeds x s = nat (x mod 31)"

definition small_Uniform :: "nat uniform_fun" where
  "small_Uniform a b s = (let t = (3 * s) mod 31 in (a + (b - a) * (real t / 31), t))"

definition fdr_groups :: "GROUP_STRUCT list" where
  "fdr_groups =
     [\<lparr>group_name = ''geneB'',
       items = [\<lparr>item_name = ''b1'', listIndex = 0, item_value = 20, percentile = 2/5\<rparr>,
                \<lparr>item_name = ''b2'', listIndex = 0, item_value = 40, percentile = 4/5\<rparr>],
       loValue = 16/25, fdr = 0\<rparr>,
      \<lparr>group_name = ''geneC'',
       items = [\<lparr>item_name = ''c1'', listIndex = 0, item_value = 15, percentile = 3/10\<rparr>],
       loValue = 3/10, fdr = 0\<rparr>,
      \<lparr>group_name = ''geneA'',
       items = [\<lparr>item_name = ''a1'', listIndex = 0, item_value = 1, percentile = 1/50\<rparr>,
                \<lparr>item_name = ''a2'', listIndex = 0, item_value = 2, percentile = 1/25\<rparr>,
                \<lparr>item_name = ''a3'', listIndex = 0, item_value = 50, percentile = 1\<rparr>],
       loValue = 73/15625, fdr = 0\<rparr>]"

definition fdr_sorted :: "GROUP_STRUCT list" where
  "fdr_sorted = [fdr_groups ! 2, fdr_groups ! 1, fdr_groups ! 0]"

definition fdr_pool :: "real list" where
  "fdr_pool = [61 / 961, 3 / 31, 120 / 961, 6 / 31, 15967 / 29791, 19143 / 29791]"

definition fdr_assigned :: "GROUP_STRUCT list" where
  "fdr_assigned =
     [(fdr_groups ! 2)\<lparr>fdr := 1 / 2\<rparr>, (fdr_groups ! 1)\<lparr>fdr := 3 / 2\<rparr>, (fdr_groups ! 0)\<lparr>fdr := 11 / 10\<rparr>]"

definition fdr_final :: "GROUP_STRUCT list" where
  "fdr_final =
     [(fdr_groups ! 2)\<lparr>fdr := 1 / 2\<rparr>, (fdr_groups ! 1)\<lparr>fdr := 1\<rparr>, (fdr_groups ! 0)\<lparr>fdr := 1\<rparr>]"

section \<open>Properties of ComputeLoValue\<close>

lemma loop_done: "\<not> i < length s \<Longrightarrow> ComputeLoValue_loop cdf s mp i acc = acc"
  by (subst ComputeLoValue_loop.simps) simp

lemma loop_break:
  "i < length s \<Longrightarrow> mp < s ! i \<Longrightarrow> 0 < i \<Longrightarrow> ComputeLoValue_loop cdf s mp i acc = acc"
  by (subst ComputeLoValue_loop.simps) simp

lemma loop_step:
  assumes "i < length s" and "\<not> (mp < s ! i \<and> 0 < i)"
  shows "ComputeLoValue_loop cdf s mp i acc =
         ComputeLoValue_loop cdf s mp (Suc i) (min (order_cdf cdf s i) acc)"
proof -
  have m: "(if x < acc then x else acc) = min x acc" for x :: real
    by (simp add: min_def)
  show ?thesis
    using assms
    by (subst ComputeLoValue_loop.simps) (auto simp add: Let_def order_cdf_def m)
qed

lemma loop_le_acc: "ComputeLoValue_loop cdf s mp i acc \<le> acc"
proof (induction "length s - i" arbitrary: i acc)
  case 0
  then show ?case by (simp add: loop_done)
next
  case (Suc d)
  then have il: "i < length s" by simp
  show ?case
  proof (cases "mp < s ! i \<and> 0 < i")
    case True
    then show ?thesis using il by (simp add: loop_break)
  next
    case False
    have d: "d = length s - Suc i" using Suc.hyps(2) by simp
    have "ComputeLoValue_loop cdf s mp (Suc i) (min (order_cdf cdf s i) acc) \<le> min (order_cdf cdf s i) acc"
      by (rule Suc.hyps(1)[OF d])
    then have "ComputeLoValue_loop cdf s mp (Suc i) (min (order_cdf cdf s i) acc) \<le> acc"
      by simp
    then show ?thesis using il False by (simp add: loop_step)
  qed
qed

lemma Min_insert_min:
  fixes a b :: real
  shows "finite A \<Longrightarrow> Min (insert (min a b) A) = min a (Min (insert b A))"
  by (cases "A = {}") (simp_all add: min.assoc)

lemma loop_run:
  assumes "k \<le> length s" and "\<forall>j<k. j = 0 \<or> \<not> mp < s ! j"
  shows "i \<le> k \<Longrightarrow> ComputeLoValue_loop cdf s mp i acc =
         ComputeLoValue_loop cdf s mp k (Min (insert acc (order_cdf cdf s ` {i..<k})))"
proof (induction "k - i" arbitrary: i acc)
  case 0
  then show ?case by simp
next
  case (Suc d)
  then have ik: "i < k" by simp
  have step: "ComputeLoValue_loop cdf s mp i acc =
         ComputeLoValue_loop cdf s mp (Suc i) (min (order_cdf cdf s i) acc)"
    using ik assms by (intro loop_step) auto
  have d: "d = k - Suc i" using Suc.hyps(2) by simp
  have "ComputeLoValue_loop cdf s mp (Suc i) (min (order_cdf cdf s i) acc) =
        ComputeLoValue_loop cdf s mp k (Min (insert (min (order_cdf cdf s i) acc) (order_cdf cdf s ` {Suc i..<k})))"
    using ik by (intro Suc.hyps(1)[OF d]) simp
  moreover have "{i..<k} = insert i {Suc i..<k}" using ik by auto
  then have "Min (insert (min (order_cdf cdf s i) acc) (order_cdf cdf s ` {Suc i..<k})) =
        Min (insert acc (order_cdf cdf s ` {i..<k}))"
    by (simp add: Min_insert_min min.commute)
  ultimately show ?case using step by simp
qed

lemma scan_stop_props:
  assumes "s \<noteq> []"
  shows "0 < scan_stop s mp" and "scan_stop s mp \<le> length s"
    and "\<forall>j < scan_stop s mp. j = 0 \<or> \<not> mp < s ! j"
    and "scan_stop s mp < length s \<longrightarrow> mp < s ! scan_stop s mp"
proof -
  obtain x xs where s: "s = x # xs" using assms by (cases s) auto
  let ?P = "\<lambda>p. \<not> mp < p"
  let ?t = "takeWhile ?P xs"
  have k: "scan_stop s mp = Suc (length ?t)" by (simp add: scan_stop_def s)
  show "0 < scan_stop s mp" by (simp add: k)
  show "scan_stop s mp \<le> length s" unfolding k by (simp add: s length_takeWhile_le)
  show "\<forall>j < scan_stop s mp. j = 0 \<or> \<not> mp < s ! j"
  proof (intro allI impI)
    fix j assume j: "j < scan_stop s mp"
    show "j = 0 \<or> \<not> mp < s ! j"
    proof (cases j)
      case 0 then show ?thesis by simp
    next
      case (Suc m)
      then have m: "m < length ?t" using j k by simp
      then have "?t ! m \<in> set ?t" by simp
      then have "?P (?t ! m)" by (rule set_takeWhileD[THEN conjunct2])
      moreover have "?t ! m = xs ! m" using m by (rule takeWhile_nth)
      ultimately show ?thesis using Suc s by simp
    qed
  qed
  show "scan_stop s mp < length s \<longrightarrow> mp < s ! scan_stop s mp"
  proof
    assume "scan_stop s mp < length s"
    then have "length ?t < length xs" using k s by simp
    then have "\<not> ?P (xs ! length ?t)" by (rule nth_length_takeWhile)
    then show "mp < s ! scan_stop s mp" using k s by simp
  qed
qed

lemma ComputeLoValue_min1:
  assumes "percentiles \<noteq> []"
  shows "ComputeLoValue cdf percentiles mp =
     Inr (Min (insert 1 (order_cdf cdf (QuicksortF percentiles) `
        {0..<scan_stop (QuicksortF percentiles) mp})))"
proof -
  let ?s = "QuicksortF percentiles"
  let ?k = "scan_stop ?s mp"
  have "length ?s = length percentiles" by (simp add: QuicksortF_def)
  then have ne: "?s \<noteq> []" using assms by auto
  note p = scan_stop_props[OF ne, of mp]
  have "ComputeLoValue_loop cdf ?s mp 0 1 =
        ComputeLoValue_loop cdf ?s mp ?k (Min (insert 1 (order_cdf cdf ?s ` {0..<?k})))"
    using p by (intro loop_run) auto
  also have "\<dots> = Min (insert 1 (order_cdf cdf ?s ` {0..<?k}))"
  proof (cases "?k < length ?s")
    case True
    then show ?thesis using p by (intro loop_break) auto
  next
    case False
    then show ?thesis by (intro loop_done)
  qed
  finally show ?thesis using assms by (simp add: ComputeLoValue_def)
qed

lemma takeWhile_cutoff_mono:
  fixes mp1 mp2 :: real
  assumes "mp1 \<le> mp2"
  shows "length (takeWhile (\<lambda>p. \<not> mp1 < p) xs) \<le> length (takeWhile (\<lambda>p. \<not> mp2 < p) xs)"
  using assms by (induction xs) auto

lemma scan_stop_mono: "mp1 \<le> mp2 \<Longrightarrow> scan_stop s mp1 \<le> scan_stop s mp2"
  by (simp add: scan_stop_def takeWhile_cutoff_mono)

text \<open>
  C1. For a group with \<open>n > 0\<close> percentiles, \<open>ComputeLoValue\<close> sorts a copy of the
  percentiles ascending, scans the indices \<open>0, \<dots>, k - 1\<close>, where \<open>k\<close> is the first index
  greater than 0 whose sorted percentile exceeds \<open>maxPercentile\<close> (or \<open>n\<close> when there is
  none, so that index 0 is always scanned), evaluates the Beta distribution function with
  shapes \<open>(i + 1, n - i)\<close>, noncentrality 0 and tolerance \<open>1e-10\<close> at the \<open>i\<close>-th sorted
  percentile for each scanned \<open>i\<close>, and stores the least of these values. The evaluator is
  taken to return probabilities, that is values that do not exceed 1, at the scanned
  points.
\<close>

theorem ComputeLoValue_scan_min:
  assumes "percentiles \<noteq> []"
    and "\<forall>i < scan_stop (QuicksortF percentiles) maxPercentile.
           order_cdf cdf (QuicksortF percentiles) i \<le> 1"
  shows "(let s = QuicksortF percentiles; n = length percentiles; k = scan_stop s maxPercentile in
          sorted s \<and> mset s = mset percentiles \<and>
          0 < k \<and> k \<le> n \<and>
          (\<forall>i<k. i = 0 \<or> \<not> maxPercentile < s ! i) \<and>
          (k < n \<longrightarrow> maxPercentile < s ! k) \<and>
          ComputeLoValue cdf percentiles maxPercentile =
            Inr (Min ((\<lambda>i. cdf (real (i + 1)) (real (n - i)) 0 (s ! i) CDF_MAX_ERROR) ` {0..<k})))"
proof -
  let ?s = "QuicksortF percentiles"
  let ?k = "scan_stop ?s maxPercentile"
  have len: "length ?s = length percentiles" by (simp add: QuicksortF_def)
  then have ne: "?s \<noteq> []" using assms(1) by auto
  note p = scan_stop_props[OF ne, of maxPercentile]
  have srt: "sorted ?s" "mset ?s = mset percentiles" by (simp_all add: QuicksortF_def)
  let ?S = "order_cdf cdf ?s ` {0..<?k}"
  have S: "finite ?S" "?S \<noteq> {}" using p(1) by auto
  have "\<forall>v\<in>?S. v \<le> 1" using assms(2) by auto
  moreover have "Min ?S \<in> ?S" using S by (intro Min_in)
  ultimately have "Min ?S \<le> 1" by blast
  moreover have "Min (insert 1 ?S) = min 1 (Min ?S)" using S by (rule Min_insert)
  ultimately have "Min (insert 1 ?S) = Min ?S" by simp
  then have "ComputeLoValue cdf percentiles maxPercentile = Inr (Min ?S)"
    using ComputeLoValue_min1[OF assms(1), of cdf maxPercentile] by simp
  moreover have "?S = (\<lambda>i. cdf (real (i + 1)) (real (length percentiles - i)) 0 (?s ! i) CDF_MAX_ERROR) ` {0..<?k}"
    by (simp add: order_cdf_def len)
  ultimately show ?thesis using p srt len by (simp add: Let_def)
qed

theorem ComputeLoValue_scan_min_witness:
  "ComputeLoValue beta_cdf_whole [1/10, 9/10, 1/5] (1/4) = Inr (13/125)
   \<and> scan_stop (QuicksortF [1/10, 9/10, 1/5]) (1/4) = 2
   \<and> QuicksortF [1/10, 9/10, 1/5] = [1/10, 1/5, 9/10]"
proof -
  have q: "QuicksortF [1/10, 9/10, 1/5] = [1/10, 1/5, 9/10]"
    by (simp add: QuicksortF_def)
  have k: "scan_stop [1/10, 1/5, 9/10] (1/4) = 2"
    by (simp add: scan_stop_def)
  have two: "{0..<2::nat} = {0, 1}" by auto
  have v0: "order_cdf beta_cdf_whole [1/10, 1/5, 9/10] 0 = 271/1000"
    by (simp add: order_cdf_def order_stat_cdf_def beta_cdf_whole_def upt_rec
        binomial_eq_0 numeral_2_eq_2 numeral_3_eq_3)
  have v1: "order_cdf beta_cdf_whole [1/10, 1/5, 9/10] 1 = 13/125"
    by (simp add: order_cdf_def order_stat_cdf_def beta_cdf_whole_def upt_rec
        binomial_eq_0 numeral_2_eq_2 numeral_3_eq_3)
  have h1: "[1/10, 9/10, 1/5] \<noteq> ([] :: real list)" by simp
  have h2: "\<forall>i < scan_stop (QuicksortF [1/10, 9/10, 1/5]) (1/4).
           order_cdf beta_cdf_whole (QuicksortF [1/10, 9/10, 1/5]) i \<le> 1"
    unfolding q k using v0 v1 by (simp add: numeral_2_eq_2 All_less_Suc)
  have "ComputeLoValue beta_cdf_whole [1/10, 9/10, 1/5] (1/4) =
        Inr (Min (order_cdf beta_cdf_whole [1/10, 1/5, 9/10] ` {0..<2}))"
    using ComputeLoValue_scan_min[OF h1 h2]
    by (simp add: Let_def order_cdf_def q k)
  then show ?thesis unfolding q k two using v0 v1 by simp
qed

text \<open>
  C7. For a fixed non-empty array of percentiles, the lo-value is antitone in
  \<open>maxPercentile\<close>: a larger cutoff gives a lo-value that is less or equal.
\<close>

theorem ComputeLoValue_antitone:
  assumes "percentiles \<noteq> []" and "maxPercentile1 \<le> maxPercentile2"
  shows "\<exists>lo1 lo2. ComputeLoValue cdf percentiles maxPercentile1 = Inr lo1 \<and>
           ComputeLoValue cdf percentiles maxPercentile2 = Inr lo2 \<and> lo2 \<le> lo1"
proof -
  let ?s = "QuicksortF percentiles"
  let ?A = "insert 1 (order_cdf cdf ?s ` {0..<scan_stop ?s maxPercentile1})"
  let ?B = "insert 1 (order_cdf cdf ?s ` {0..<scan_stop ?s maxPercentile2})"
  have "?A \<subseteq> ?B" using scan_stop_mono[OF assms(2), of ?s] by auto
  then have "Min ?B \<le> Min ?A" by (intro Min_antimono) auto
  then show ?thesis using ComputeLoValue_min1[OF assms(1), of cdf] by simp
qed

lemma eval_lo_small: "ComputeLoValue beta_cdf_whole [1/10, 9/10, 1/5] (3/20) = Inr (271/1000)"
  by (simp add: ComputeLoValue_def QuicksortF_def ComputeLoValue_loop.simps order_stat_cdf_def
      beta_cdf_whole_def CDF_MAX_ERROR_def Let_def upt_rec binomial_eq_0 numeral_2_eq_2 numeral_3_eq_3)

lemma eval_lo_large: "ComputeLoValue beta_cdf_whole [1/10, 9/10, 1/5] (1/4) = Inr (13/125)"
  by (simp add: ComputeLoValue_def QuicksortF_def ComputeLoValue_loop.simps order_stat_cdf_def
      beta_cdf_whole_def CDF_MAX_ERROR_def Let_def upt_rec binomial_eq_0 numeral_2_eq_2 numeral_3_eq_3)

theorem ComputeLoValue_antitone_witness:
  "[1/10, 9/10, 1/5] \<noteq> ([] :: real list) \<and> (3/20 :: real) \<le> 1/4 \<and>
   (\<exists>lo1 lo2. ComputeLoValue beta_cdf_whole [1/10, 9/10, 1/5] (3/20) = Inr lo1 \<and>
      ComputeLoValue beta_cdf_whole [1/10, 9/10, 1/5] (1/4) = Inr lo2 \<and> lo2 \<le> lo1) \<and>
   ComputeLoValue beta_cdf_whole [1/10, 9/10, 1/5] (3/20) = Inr (271/1000) \<and>
   ComputeLoValue beta_cdf_whole [1/10, 9/10, 1/5] (1/4) = Inr (13/125)"
  using ComputeLoValue_antitone[of "[1/10, 9/10, 1/5]" "3/20" "1/4" beta_cdf_whole]
    eval_lo_small eval_lo_large
  by simp

lemma order_stat_cdf_nonneg:
  assumes "0 \<le> x" and "x \<le> 1"
  shows "0 \<le> order_stat_cdf k n x"
  unfolding order_stat_cdf_def using assms
  by (intro sum_list_nonneg) auto

lemma mem_sort_bounds:
  assumes "\<forall>p\<in>set ps. 0 \<le> p \<and> p \<le> (1::real)" and "i < length ps"
  shows "0 \<le> QuicksortF ps ! i \<and> QuicksortF ps ! i \<le> 1"
proof -
  have "QuicksortF ps ! i \<in> set (QuicksortF ps)"
    using assms(2) by (intro nth_mem) (simp add: QuicksortF_def)
  then show ?thesis using assms(1) by (simp add: QuicksortF_def)
qed

text \<open>
  C9. For percentiles that all lie in \<open>[0, 1]\<close>, in a non-empty array, and any
  \<open>maxPercentile\<close>, the lo-value lies in \<open>[0, 1]\<close>: it starts at 1.0 and is only lowered
  to values of the Beta evaluator, which returns probabilities (here: nothing negative at
  arguments in \<open>[0, 1]\<close>).
\<close>

theorem ComputeLoValue_unit_interval:
  assumes "percentiles \<noteq> []"
    and "\<forall>p\<in>set percentiles. 0 \<le> p \<and> p \<le> 1"
    and "\<forall>a b x. 0 \<le> x \<and> x \<le> 1 \<longrightarrow> 0 \<le> cdf a b 0 x CDF_MAX_ERROR"
  shows "\<exists>lo. ComputeLoValue cdf percentiles maxPercentile = Inr lo \<and> 0 \<le> lo \<and> lo \<le> 1"
proof -
  let ?s = "QuicksortF percentiles"
  let ?k = "scan_stop ?s maxPercentile"
  let ?S = "insert 1 (order_cdf cdf ?s ` {0..<?k})"
  have len: "length ?s = length percentiles" by (simp add: QuicksortF_def)
  then have ne: "?s \<noteq> []" using assms(1) by auto
  have kn: "?k \<le> length percentiles" using scan_stop_props(2)[OF ne, of maxPercentile] len by simp
  have "\<forall>v\<in>?S. 0 \<le> v"
  proof
    fix v assume "v \<in> ?S"
    then consider "v = 1" | i where "i < ?k" "v = order_cdf cdf ?s i" by auto
    then show "0 \<le> v"
    proof cases
      case 1 then show ?thesis by simp
    next
      case 2
      then have "i < length percentiles" using kn by simp
      then have "0 \<le> ?s ! i \<and> ?s ! i \<le> 1" using assms(2) by (intro mem_sort_bounds)
      then show ?thesis using assms(3) 2 by (simp add: order_cdf_def)
    qed
  qed
  moreover have "Min ?S \<in> ?S" by (intro Min_in) auto
  ultimately have "0 \<le> Min ?S" by blast
  moreover have "Min ?S \<le> 1" by (intro Min_le) auto
  ultimately show ?thesis using ComputeLoValue_min1[OF assms(1), of cdf maxPercentile] by simp
qed

theorem ComputeLoValue_unit_interval_witness:
  "\<exists>lo. ComputeLoValue beta_cdf_whole [1/10, 9/10, 1/5] (1/4) = Inr lo \<and> 0 \<le> lo \<and> lo \<le> 1"
proof -
  have h1: "[1/10, 9/10, 1/5] \<noteq> ([] :: real list)" by simp
  have h2: "\<forall>p\<in>set [1/10, 9/10, 1/5 :: real]. 0 \<le> p \<and> p \<le> 1" by simp
  have h3: "\<forall>a b x. 0 \<le> x \<and> x \<le> 1 \<longrightarrow> 0 \<le> beta_cdf_whole a b 0 x CDF_MAX_ERROR"
    by (simp add: beta_cdf_whole_def order_stat_cdf_nonneg)
  show ?thesis
    by (rule ComputeLoValue_unit_interval[where cdf = beta_cdf_whole and maxPercentile = "1/4", OF h1 h2 h3])
qed

section \<open>Properties of ProcessGroups\<close>















section \<open>Properties of QuickSortGroupByLoValue\<close>

lemma rd_loValue_Inr:
  "rd_loValue gs k = Inr v \<longleftrightarrow> 0 \<le> k \<and> k < int (length gs) \<and> v = loValue (gs ! nat k)"
  by (auto simp: rd_loValue_def)

lemma scan_up_result:
  assumes "scan_up gs x i j = Inr i1"
  shows "i \<le> i1 \<and> 0 \<le> i \<and> i1 < int (length gs) \<and>
         (\<forall>k. i \<le> k \<and> k < i1 \<longrightarrow> loValue (gs ! nat k) < x \<and> k \<le> j) \<and>
         \<not> (loValue (gs ! nat i1) < x \<and> i1 \<le> j)"
  using assms
proof (induction gs x i j rule: scan_up.induct)
  case (1 gs x i j)
  from "1.prems" obtain v where v: "rd_loValue gs i = Inr v"
    by (subst (asm) scan_up.simps) (auto split: sum.splits)
  then have inb: "0 \<le> i" "i < int (length gs)" "v = loValue (gs ! nat i)"
    by (auto simp: rd_loValue_Inr)
  show ?case
  proof (cases "v < x \<and> i \<le> j")
    case True
    then have "scan_up gs x (i + 1) j = Inr i1"
      using "1.prems" v by (subst (asm) scan_up.simps) simp
    from "1.IH"[OF v True this] have ih:
      "i + 1 \<le> i1" "i1 < int (length gs)"
      "\<forall>k. i + 1 \<le> k \<and> k < i1 \<longrightarrow> loValue (gs ! nat k) < x \<and> k \<le> j"
      "\<not> (loValue (gs ! nat i1) < x \<and> i1 \<le> j)"
      by auto
    have "loValue (gs ! nat k) < x \<and> k \<le> j" if "i \<le> k" "k < i1" for k
    proof (cases "k = i")
      case True
      then show ?thesis using \<open>v < x \<and> i \<le> j\<close> inb by simp
    next
      case False
      then show ?thesis using ih(3) that by simp
    qed
    then show ?thesis using ih inb by auto
  next
    case False
    then have "i1 = i" using "1.prems" v by (subst (asm) scan_up.simps) auto
    then show ?thesis using False inb by auto
  qed
qed

lemma scan_down_result:
  assumes "scan_down gs x i j = Inr j1"
  shows "j1 \<le> j \<and> 0 \<le> j1 \<and> j < int (length gs) \<and>
         (\<forall>k. j1 < k \<and> k \<le> j \<longrightarrow> x < loValue (gs ! nat k) \<and> i \<le> k) \<and>
         \<not> (x < loValue (gs ! nat j1) \<and> i \<le> j1)"
  using assms
proof (induction gs x i j rule: scan_down.induct)
  case (1 gs x i j)
  from "1.prems" obtain v where v: "rd_loValue gs j = Inr v"
    by (subst (asm) scan_down.simps) (auto split: sum.splits)
  then have inb: "0 \<le> j" "j < int (length gs)" "v = loValue (gs ! nat j)"
    by (auto simp: rd_loValue_Inr)
  show ?case
  proof (cases "x < v \<and> i \<le> j")
    case True
    then have "scan_down gs x i (j - 1) = Inr j1"
      using "1.prems" v by (subst (asm) scan_down.simps) simp
    from "1.IH"[OF v True this] have ih:
      "j1 \<le> j - 1" "0 \<le> j1"
      "\<forall>k. j1 < k \<and> k \<le> j - 1 \<longrightarrow> x < loValue (gs ! nat k) \<and> i \<le> k"
      "\<not> (x < loValue (gs ! nat j1) \<and> i \<le> j1)"
      by auto
    have "x < loValue (gs ! nat k) \<and> i \<le> k" if "j1 < k" "k \<le> j" for k
    proof (cases "k = j")
      case True
      then show ?thesis using \<open>x < v \<and> i \<le> j\<close> inb by simp
    next
      case False
      then show ?thesis using ih(3) that by simp
    qed
    then show ?thesis using ih inb by auto
  next
    case False
    then have "j1 = j" using "1.prems" v by (subst (asm) scan_down.simps) auto
    then show ?thesis using False inb by auto
  qed
qed

lemma scan_up_returns:
  assumes "0 \<le> i" and "i \<le> m" and "m < int (length gs)"
    and "\<not> (loValue (gs ! nat m) < x \<and> m \<le> j)"
  shows "\<exists>i1. scan_up gs x i j = Inr i1 \<and> i1 \<le> m"
  using assms
proof (induction "nat (m - i)" arbitrary: i)
  case 0
  then have "i = m" by simp
  then have "scan_up gs x i j = Inr i"
    using 0 by (subst scan_up.simps) (auto simp: rd_loValue_def)
  then show ?case using \<open>i = m\<close> by simp
next
  case (Suc d)
  have rd: "rd_loValue gs i = Inr (loValue (gs ! nat i))"
    using Suc.prems by (simp add: rd_loValue_def)
  show ?case
  proof (cases "loValue (gs ! nat i) < x \<and> i \<le> j")
    case True
    have "d = nat (m - (i + 1))" using Suc.hyps(2) by simp
    moreover have "i + 1 \<le> m" using Suc.hyps(2) by simp
    ultimately obtain i1 where "scan_up gs x (i + 1) j = Inr i1" "i1 \<le> m"
      using Suc.hyps(1)[of "i + 1"] Suc.prems by auto
    then show ?thesis using True rd by (subst scan_up.simps) simp
  next
    case False
    then have "scan_up gs x i j = Inr i" using rd by (subst scan_up.simps) auto
    then show ?thesis using Suc.prems by simp
  qed
qed

lemma scan_down_returns:
  assumes "0 \<le> m" and "m \<le> j" and "j < int (length gs)"
    and "\<not> (x < loValue (gs ! nat m) \<and> i \<le> m)"
  shows "\<exists>j1. scan_down gs x i j = Inr j1 \<and> m \<le> j1"
  using assms
proof (induction "nat (j - m)" arbitrary: j)
  case 0
  then have "j = m" by simp
  then have "scan_down gs x i j = Inr j"
    using 0 by (subst scan_down.simps) (auto simp: rd_loValue_def)
  then show ?case using \<open>j = m\<close> by simp
next
  case (Suc d)
  have rd: "rd_loValue gs j = Inr (loValue (gs ! nat j))"
    using Suc.prems by (simp add: rd_loValue_def)
  show ?case
  proof (cases "x < loValue (gs ! nat j) \<and> i \<le> j")
    case True
    have "d = nat (j - 1 - m)" using Suc.hyps(2) by simp
    moreover have "m \<le> j - 1" using Suc.hyps(2) by simp
    ultimately obtain j1 where "scan_down gs x i (j - 1) = Inr j1" "m \<le> j1"
      using Suc.hyps(1)[of "j - 1"] Suc.prems by auto
    then show ?thesis using True rd by (subst scan_down.simps) simp
  next
    case False
    then have "scan_down gs x i j = Inr j" using rd by (subst scan_down.simps) auto
    then show ?thesis using Suc.prems by simp
  qed
qed

termination partition_loop
proof (relation "measure (\<lambda>(groups, x, i, j). nat (j + 1 - i))", goal_cases)
  case 1
  then show ?case by simp
next
  case (2 groups x i j i1 j1)
  then show ?case
    using scan_up_result[of groups x i j i1] scan_down_result[of groups x i1 j j1] by simp
next
  case (3 groups x i j i1 j1)
  then show ?case by simp
qed

declare partition_loop.simps [simp del]

lemma partition_exit: "\<not> i \<le> j \<Longrightarrow> partition_loop gs x i j = Inr (gs, i, j)"
  by (subst partition_loop.simps) simp

lemma partition_swap:
  assumes "i \<le> j" and "scan_up gs x i j = Inr i1" and "scan_down gs x i1 j = Inr j1" and "i1 \<le> j1"
  shows "partition_loop gs x i j = partition_loop (swap_groups gs i1 j1) x (i1 + 1) (j1 - 1)"
  using assms by (subst partition_loop.simps) simp

lemma partition_cross:
  assumes "i \<le> j" and "scan_up gs x i j = Inr i1" and "scan_down gs x i1 j = Inr j1" and "\<not> i1 \<le> j1"
  shows "partition_loop gs x i j = Inr (gs, i1, j1)"
  using assms by (subst partition_loop.simps) (simp add: partition_exit)

lemma partition_scans:
  assumes "partition_loop gs x i j = Inr r" and "i \<le> j"
  obtains i1 j1 where "scan_up gs x i j = Inr i1" and "scan_down gs x i1 j = Inr j1"
  using assms by (subst (asm) partition_loop.simps) (auto split: sum.splits)

lemma length_swap_groups [simp]: "length (swap_groups gs i j) = length gs"
  by (simp add: swap_groups_def)

lemma partition_mono:
  assumes "partition_loop gs x i j = Inr (gs', i', j')"
  shows "i \<le> i' \<and> j' \<le> j \<and> length gs' = length gs"
  using assms
proof (induction gs x i j rule: partition_loop.induct)
  case (1 gs x i j)
  show ?case
  proof (cases "i \<le> j")
    case False
    then show ?thesis using "1.prems" by (simp add: partition_exit)
  next
    case True
    from "1.prems" True obtain i1 j1 where
      up: "scan_up gs x i j = Inr i1" and down: "scan_down gs x i1 j = Inr j1"
      by (rule partition_scans)
    have b: "i \<le> i1" "j1 \<le> j"
      using scan_up_result[OF up] scan_down_result[OF down] by auto
    show ?thesis
    proof (cases "i1 \<le> j1")
      case True
      have "partition_loop (swap_groups gs i1 j1) x (i1 + 1) (j1 - 1) = Inr (gs', i', j')"
        using "1.prems" partition_swap[OF \<open>i \<le> j\<close> up down True] by simp
      from "1.IH"(1)[OF \<open>i \<le> j\<close> up down True this] show ?thesis using b by simp
    next
      case False
      then show ?thesis
        using "1.prems" partition_cross[OF \<open>i \<le> j\<close> up down False] b by simp
    qed
  qed
qed

lemma partition_first:
  assumes "partition_loop gs x lo hi = Inr (gs', i', j')"
    and "rd_loValue gs m = Inr x" and "lo \<le> m" and "m \<le> hi"
  shows "lo < i' \<and> j' < hi"
proof -
  have lh: "lo \<le> hi" using assms(3,4) by simp
  from assms(1) lh obtain i1 j1 where
    up: "scan_up gs x lo hi = Inr i1" and down: "scan_down gs x i1 hi = Inr j1"
    by (rule partition_scans)
  have m: "loValue (gs ! nat m) = x" using assms(2) by (simp add: rd_loValue_Inr)
  note u = scan_up_result[OF up]
  have i1: "i1 \<le> m"
  proof (rule ccontr)
    assume "\<not> i1 \<le> m"
    then have "loValue (gs ! nat m) < x" using u assms(3) by simp
    then show False using m by simp
  qed
  note d = scan_down_result[OF down]
  have j1: "m \<le> j1"
  proof (rule ccontr)
    assume "\<not> m \<le> j1"
    then have "x < loValue (gs ! nat m)" using d assms(4) by simp
    then show False using m by simp
  qed
  have c: "i1 \<le> j1" using i1 j1 by simp
  have "partition_loop (swap_groups gs i1 j1) x (i1 + 1) (j1 - 1) = Inr (gs', i', j')"
    using assms(1) partition_swap[OF lh up down c] by simp
  from partition_mono[OF this] show ?thesis using u d by auto
qed

lemma c_div_2_between:
  assumes "lo \<le> hi"
  shows "lo \<le> c_div (lo + hi) 2 \<and> c_div (lo + hi) 2 \<le> hi"
proof (cases "0 \<le> lo + hi")
  case True
  then have "c_div (lo + hi) 2 = (lo + hi) div 2"
    by (cases "lo + hi = 0") (simp_all add: c_div_def sgn_if)
  then show ?thesis using assms by linarith
next
  case False
  then have "c_div (lo + hi) 2 = - ((- (lo + hi)) div 2)"
    by (simp add: c_div_def sgn_if)
  then show ?thesis using assms False by linarith
qed

lemma c_div_2_nonneg: "0 \<le> a \<Longrightarrow> c_div a 2 = a div 2"
  by (cases "a = 0") (simp_all add: c_div_def sgn_if)

termination QuickSortGroupByLoValue
proof (relation "measure (\<lambda>(groups, lo, hi). nat (hi - lo))", goal_cases)
  case 1
  then show ?case by simp
next
  case (2 groups lo hi x r groups1 ij i j)
  then have "partition_loop groups x lo hi = Inr (groups1, i, j)" "\<not> hi < lo" by simp_all
  with 2(1) have "lo < i \<and> j < hi"
    using c_div_2_between[of lo hi] by (intro partition_first[of groups x lo hi groups1 i j "c_div (lo + hi) 2"]) auto
  then show ?case using 2 by simp
next
  case (3 groups lo hi x r groups1 ij i j groups2)
  then have "partition_loop groups x lo hi = Inr (groups1, i, j)" "\<not> hi < lo" by simp_all
  with 3(1) have "lo < i \<and> j < hi"
    using c_div_2_between[of lo hi] by (intro partition_first[of groups x lo hi groups1 i j "c_div (lo + hi) 2"]) auto
  then show ?case using 3 by simp
qed

lemma swap_groups_nth:
  assumes "0 \<le> a" "a < int (length gs)" "0 \<le> b" "b < int (length gs)" "0 \<le> k" "k < int (length gs)"
  shows "swap_groups gs a b ! nat k =
         (if k = b then gs ! nat a else if k = a then gs ! nat b else gs ! nat k)"
  using assms by (auto simp: swap_groups_def nth_list_update)

lemma mset_swap_groups:
  assumes "0 \<le> a" "a < int (length gs)" "0 \<le> b" "b < int (length gs)"
  shows "mset (swap_groups gs a b) = mset gs"
  using assms unfolding swap_groups_def by (intro mset_swap) auto

lemma partition_loop_correct:
  assumes "0 \<le> lo" and "hi < int (length gs)" and "lo \<le> i" and "j \<le> hi"
    and "\<forall>k. lo \<le> k \<and> k < i \<longrightarrow> loValue (gs ! nat k) \<le> x"
    and "\<forall>k. j < k \<and> k \<le> hi \<longrightarrow> x \<le> loValue (gs ! nat k)"
    and "(lo < i \<and> j < hi) \<or> (\<exists>m. i \<le> m \<and> m \<le> j \<and> loValue (gs ! nat m) = x)"
  shows "\<exists>gs' i' j'. partition_loop gs x i j = Inr (gs', i', j') \<and>
      length gs' = length gs \<and> mset gs' = mset gs \<and>
      (\<forall>k. 0 \<le> k \<and> k < int (length gs) \<and> (k < lo \<or> hi < k) \<longrightarrow> gs' ! nat k = gs ! nat k) \<and>
      (\<forall>k. lo \<le> k \<and> k \<le> hi \<longrightarrow> (\<exists>l. lo \<le> l \<and> l \<le> hi \<and> gs' ! nat k = gs ! nat l)) \<and>
      j' < i' \<and> lo < i' \<and> j' < hi \<and>
      (\<forall>k. lo \<le> k \<and> k < i' \<longrightarrow> loValue (gs' ! nat k) \<le> x) \<and>
      (\<forall>k. j' < k \<and> k \<le> hi \<longrightarrow> x \<le> loValue (gs' ! nat k))"
  using assms
proof (induction gs x i j rule: partition_loop.induct)
  case (1 gs x i j)
  note L = "1.prems"(5) and R = "1.prems"(6) and S = "1.prems"(7)
  note bnd = "1.prems"(1-4)
  show ?case
  proof (cases "i \<le> j")
    case False
    then have S1: "lo < i \<and> j < hi" using S by auto
    have "partition_loop gs x i j = Inr (gs, i, j)" using False by (rule partition_exit)
    then show ?thesis using False S1 L R by auto
  next
    case True
    have "\<exists>i1. scan_up gs x i j = Inr i1"
    proof (cases "lo < i \<and> j < hi")
      case True
      have "\<exists>i1. scan_up gs x i j = Inr i1 \<and> i1 \<le> j + 1"
        using bnd True \<open>i \<le> j\<close> by (intro scan_up_returns) auto
      then show ?thesis by blast
    next
      case False
      then obtain m where m: "i \<le> m" "m \<le> j" "loValue (gs ! nat m) = x" using S by auto
      have "\<exists>i1. scan_up gs x i j = Inr i1 \<and> i1 \<le> m"
        using bnd m by (intro scan_up_returns) auto
      then show ?thesis by blast
    qed
    then obtain i1 where up: "scan_up gs x i j = Inr i1" by blast
    note u = scan_up_result[OF up]
    have i1j: "i1 \<le> j + 1"
    proof (rule ccontr)
      assume "\<not> i1 \<le> j + 1"
      then have "i \<le> j + 1 \<and> j + 1 < i1" using True by simp
      then have "j + 1 \<le> j" using u by blast
      then show False by simp
    qed
    have "\<exists>j1. scan_down gs x i1 j = Inr j1"
    proof (cases "lo < i \<and> j < hi")
      case True
      have "\<exists>j1. scan_down gs x i1 j = Inr j1 \<and> i1 - 1 \<le> j1"
        using bnd True u i1j by (intro scan_down_returns) auto
      then show ?thesis by blast
    next
      case False
      then obtain m where m: "i \<le> m" "m \<le> j" "loValue (gs ! nat m) = x" using S by auto
      have "\<exists>j1. scan_down gs x i1 j = Inr j1 \<and> m \<le> j1"
        using bnd m by (intro scan_down_returns) auto
      then show ?thesis by blast
    qed
    then obtain j1 where down: "scan_down gs x i1 j = Inr j1" by blast
    note d = scan_down_result[OF down]
    have Li1: "\<forall>k. lo \<le> k \<and> k < i1 \<longrightarrow> loValue (gs ! nat k) \<le> x"
    proof (intro allI impI)
      fix k assume k: "lo \<le> k \<and> k < i1"
      show "loValue (gs ! nat k) \<le> x"
      proof (cases "k < i")
        case True then show ?thesis using L k by simp
      next
        case False
        then have "loValue (gs ! nat k) < x" using u k by simp
        then show ?thesis by simp
      qed
    qed
    have Rj1: "\<forall>k. j1 < k \<and> k \<le> hi \<longrightarrow> x \<le> loValue (gs ! nat k)"
    proof (intro allI impI)
      fix k assume k: "j1 < k \<and> k \<le> hi"
      show "x \<le> loValue (gs ! nat k)"
      proof (cases "j < k")
        case True then show ?thesis using R k by simp
      next
        case False
        then have "x < loValue (gs ! nat k)" using d k by simp
        then show ?thesis by simp
      qed
    qed
    show ?thesis
    proof (cases "i1 \<le> j1")
      case False
      have S1: "lo < i \<and> j < hi"
      proof (rule ccontr)
        assume "\<not> (lo < i \<and> j < hi)"
        then obtain m where m: "i \<le> m" "m \<le> j" "loValue (gs ! nat m) = x" using S by auto
        have "i1 \<le> m"
        proof (rule ccontr)
          assume "\<not> i1 \<le> m"
          then have "loValue (gs ! nat m) < x" using u m(1) by auto
          then show False using m by simp
        qed
        moreover have "m \<le> j1"
        proof (rule ccontr)
          assume "\<not> m \<le> j1"
          then have "x < loValue (gs ! nat m)" using d m(2) by auto
          then show False using m by simp
        qed
        ultimately show False using False by simp
      qed
      have "partition_loop gs x i j = Inr (gs, i1, j1)"
        using True up down False by (rule partition_cross)
      moreover have "j1 < i1" using False by simp
      moreover have "lo < i1" using S1 u by simp
      moreover have "j1 < hi" using S1 d by simp
      ultimately show ?thesis using Li1 Rj1 by auto
    next
      case c: True
      let ?gs2 = "swap_groups gs i1 j1"
      have ib: "0 \<le> i1" "i1 < int (length gs)" "0 \<le> j1" "j1 < int (length gs)"
        using u d bnd c by auto
      have ih_lo: "lo \<le> i1" "j1 \<le> hi" using u d bnd by auto
      have vi1: "x \<le> loValue (gs ! nat i1)" using u c d by auto
      have vj1: "loValue (gs ! nat j1) \<le> x" using d c by auto
      have nth2: "?gs2 ! nat k = (if k = j1 then gs ! nat i1 else if k = i1 then gs ! nat j1 else gs ! nat k)"
        if "0 \<le> k" "k < int (length gs)" for k
        using ib that by (rule swap_groups_nth)
      have L2: "\<forall>k. lo \<le> k \<and> k < i1 + 1 \<longrightarrow> loValue (?gs2 ! nat k) \<le> x"
      proof (intro allI impI)
        fix k assume k: "lo \<le> k \<and> k < i1 + 1"
        then have kb: "0 \<le> k" "k < int (length gs)" using bnd ib by auto
        show "loValue (?gs2 ! nat k) \<le> x"
        proof (cases "k = i1")
          case True
          then show ?thesis using nth2[OF kb] vj1 vi1 by auto
        next
          case False
          then have "k < i1" using k by simp
          then have "k \<noteq> j1" using c by simp
          then show ?thesis using nth2[OF kb] False Li1 k \<open>k < i1\<close> by simp
        qed
      qed
      have R2: "\<forall>k. j1 - 1 < k \<and> k \<le> hi \<longrightarrow> x \<le> loValue (?gs2 ! nat k)"
      proof (intro allI impI)
        fix k assume k: "j1 - 1 < k \<and> k \<le> hi"
        then have kb: "0 \<le> k" "k < int (length gs)" using bnd ib by auto
        show "x \<le> loValue (?gs2 ! nat k)"
        proof (cases "k = j1")
          case True
          then show ?thesis using nth2[OF kb] vi1 by auto
        next
          case False
          then have "j1 < k" using k by simp
          then have "k \<noteq> i1" using c by simp
          then show ?thesis using nth2[OF kb] False Rj1 k \<open>j1 < k\<close> by simp
        qed
      qed
      have S2: "(lo < i1 + 1 \<and> j1 - 1 < hi) \<or> (\<exists>m. i1 + 1 \<le> m \<and> m \<le> j1 - 1 \<and> loValue (?gs2 ! nat m) = x)"
        using ih_lo by simp
      have "\<exists>gs' i' j'. partition_loop ?gs2 x (i1 + 1) (j1 - 1) = Inr (gs', i', j') \<and>
        length gs' = length ?gs2 \<and> mset gs' = mset ?gs2 \<and>
        (\<forall>k. 0 \<le> k \<and> k < int (length ?gs2) \<and> (k < lo \<or> hi < k) \<longrightarrow> gs' ! nat k = ?gs2 ! nat k) \<and>
        (\<forall>k. lo \<le> k \<and> k \<le> hi \<longrightarrow> (\<exists>l. lo \<le> l \<and> l \<le> hi \<and> gs' ! nat k = ?gs2 ! nat l)) \<and>
        j' < i' \<and> lo < i' \<and> j' < hi \<and>
        (\<forall>k. lo \<le> k \<and> k < i' \<longrightarrow> loValue (gs' ! nat k) \<le> x) \<and>
        (\<forall>k. j' < k \<and> k \<le> hi \<longrightarrow> x \<le> loValue (gs' ! nat k))"
        using bnd ih_lo by (intro "1.IH"(1)[OF True up down c] L2 R2 S2) auto
      then obtain gs' i' j' where res: "partition_loop ?gs2 x (i1 + 1) (j1 - 1) = Inr (gs', i', j')"
        and len: "length gs' = length ?gs2" and ms: "mset gs' = mset ?gs2"
        and out: "\<forall>k. 0 \<le> k \<and> k < int (length ?gs2) \<and> (k < lo \<or> hi < k) \<longrightarrow> gs' ! nat k = ?gs2 ! nat k"
        and orig: "\<forall>k. lo \<le> k \<and> k \<le> hi \<longrightarrow> (\<exists>l. lo \<le> l \<and> l \<le> hi \<and> gs' ! nat k = ?gs2 ! nat l)"
        and post: "j' < i'" "lo < i'" "j' < hi"
          "\<forall>k. lo \<le> k \<and> k < i' \<longrightarrow> loValue (gs' ! nat k) \<le> x"
          "\<forall>k. j' < k \<and> k \<le> hi \<longrightarrow> x \<le> loValue (gs' ! nat k)"
        by blast
      have eq: "partition_loop gs x i j = Inr (gs', i', j')"
        using partition_swap[OF True up down c] res by simp
      have out': "\<forall>k. 0 \<le> k \<and> k < int (length gs) \<and> (k < lo \<or> hi < k) \<longrightarrow> gs' ! nat k = gs ! nat k"
      proof (intro allI impI)
        fix k assume k: "0 \<le> k \<and> k < int (length gs) \<and> (k < lo \<or> hi < k)"
        then have "gs' ! nat k = ?gs2 ! nat k" using out by simp
        moreover have "k \<noteq> i1" "k \<noteq> j1" using k ih_lo c by auto
        ultimately show "gs' ! nat k = gs ! nat k" using nth2[of k] k by simp
      qed
      have orig': "\<forall>k. lo \<le> k \<and> k \<le> hi \<longrightarrow> (\<exists>l. lo \<le> l \<and> l \<le> hi \<and> gs' ! nat k = gs ! nat l)"
      proof (intro allI impI)
        fix k assume k: "lo \<le> k \<and> k \<le> hi"
        then obtain l where l: "lo \<le> l" "l \<le> hi" "gs' ! nat k = ?gs2 ! nat l" using orig by blast
        have lb: "0 \<le> l" "l < int (length gs)" using l bnd by auto
        consider "l = j1" | "l \<noteq> j1" "l = i1" | "l \<noteq> j1" "l \<noteq> i1" by blast
        then show "\<exists>l. lo \<le> l \<and> l \<le> hi \<and> gs' ! nat k = gs ! nat l"
        proof cases
          case 1
          then have "gs' ! nat k = gs ! nat i1" using l nth2[OF lb] by simp
          then show ?thesis using ih_lo c by (intro exI[of _ i1]) auto
        next
          case 2
          then have "gs' ! nat k = gs ! nat j1" using l nth2[OF lb] by simp
          then show ?thesis using ih_lo c by (intro exI[of _ j1]) auto
        next
          case 3
          then have "gs' ! nat k = gs ! nat l" using l nth2[OF lb] by simp
          then show ?thesis using l by blast
        qed
      qed
      have "length gs' = length gs" using len by simp
      moreover have "mset gs' = mset gs" using ms mset_swap_groups[OF ib] by simp
      ultimately show ?thesis using eq out' orig' post by blast
    qed
  qed
qed

declare QuickSortGroupByLoValue.simps [simp del]

lemma QuickSort_unfold:
  assumes "rd_loValue gs (c_div (lo + hi) 2) = Inr x" and "\<not> hi < lo"
    and "partition_loop gs x lo hi = Inr (gs1, i, j)"
    and "(if lo < j then QuickSortGroupByLoValue gs1 lo j else Inr gs1) = Inr gs2"
    and "(if i < hi then QuickSortGroupByLoValue gs2 i hi else Inr gs2) = Inr gs3"
  shows "QuickSortGroupByLoValue gs lo hi = Inr gs3"
  using assms by (subst QuickSortGroupByLoValue.simps) simp

lemma QuickSort_correct:
  assumes "0 \<le> lo" and "hi < int (length gs)" and "lo \<le> hi"
  shows "\<exists>gs'. QuickSortGroupByLoValue gs lo hi = Inr gs' \<and>
      length gs' = length gs \<and> mset gs' = mset gs \<and>
      (\<forall>k. 0 \<le> k \<and> k < int (length gs) \<and> (k < lo \<or> hi < k) \<longrightarrow> gs' ! nat k = gs ! nat k) \<and>
      (\<forall>k. lo \<le> k \<and> k \<le> hi \<longrightarrow> (\<exists>l. lo \<le> l \<and> l \<le> hi \<and> gs' ! nat k = gs ! nat l)) \<and>
      (\<forall>k l. lo \<le> k \<and> k \<le> l \<and> l \<le> hi \<longrightarrow> loValue (gs' ! nat k) \<le> loValue (gs' ! nat l))"
  using assms
proof (induction "nat (hi - lo)" arbitrary: gs lo hi rule: less_induct)
  case less
  note bnd = less.prems
  let ?mid = "c_div (lo + hi) 2"
  have mid: "lo \<le> ?mid" "?mid \<le> hi" using c_div_2_between[OF bnd(3)] by auto
  define x where "x = loValue (gs ! nat ?mid)"
  have rd: "rd_loValue gs ?mid = Inr x"
    using mid bnd by (simp add: rd_loValue_def x_def)
  have "\<exists>gs1 i j. partition_loop gs x lo hi = Inr (gs1, i, j) \<and>
      length gs1 = length gs \<and> mset gs1 = mset gs \<and>
      (\<forall>k. 0 \<le> k \<and> k < int (length gs) \<and> (k < lo \<or> hi < k) \<longrightarrow> gs1 ! nat k = gs ! nat k) \<and>
      (\<forall>k. lo \<le> k \<and> k \<le> hi \<longrightarrow> (\<exists>l. lo \<le> l \<and> l \<le> hi \<and> gs1 ! nat k = gs ! nat l)) \<and>
      j < i \<and> lo < i \<and> j < hi \<and>
      (\<forall>k. lo \<le> k \<and> k < i \<longrightarrow> loValue (gs1 ! nat k) \<le> x) \<and>
      (\<forall>k. j < k \<and> k \<le> hi \<longrightarrow> x \<le> loValue (gs1 ! nat k))"
    using bnd mid by (intro partition_loop_correct) (auto simp: x_def)
  then obtain gs1 i j where part: "partition_loop gs x lo hi = Inr (gs1, i, j)"
    and len1: "length gs1 = length gs" and ms1: "mset gs1 = mset gs"
    and out1: "\<And>k. 0 \<le> k \<Longrightarrow> k < int (length gs) \<Longrightarrow> k < lo \<or> hi < k \<Longrightarrow> gs1 ! nat k = gs ! nat k"
    and orig1: "\<And>k. lo \<le> k \<Longrightarrow> k \<le> hi \<Longrightarrow> \<exists>l. lo \<le> l \<and> l \<le> hi \<and> gs1 ! nat k = gs ! nat l"
    and ij: "j < i" "lo < i" "j < hi"
    and L1: "\<And>k. lo \<le> k \<Longrightarrow> k < i \<Longrightarrow> loValue (gs1 ! nat k) \<le> x"
    and R1: "\<And>k. j < k \<Longrightarrow> k \<le> hi \<Longrightarrow> x \<le> loValue (gs1 ! nat k)"
    by blast
  have "\<exists>gs2. (if lo < j then QuickSortGroupByLoValue gs1 lo j else Inr gs1) = Inr gs2 \<and>
      length gs2 = length gs1 \<and> mset gs2 = mset gs1 \<and>
      (\<forall>k. 0 \<le> k \<and> k < int (length gs1) \<and> (k < lo \<or> j < k) \<longrightarrow> gs2 ! nat k = gs1 ! nat k) \<and>
      (\<forall>k. lo \<le> k \<and> k \<le> j \<longrightarrow> (\<exists>l. lo \<le> l \<and> l \<le> j \<and> gs2 ! nat k = gs1 ! nat l)) \<and>
      (\<forall>k l. lo \<le> k \<and> k \<le> l \<and> l \<le> j \<longrightarrow> loValue (gs2 ! nat k) \<le> loValue (gs2 ! nat l))"
  proof (cases "lo < j")
    case True
    have "nat (j - lo) < nat (hi - lo)" using ij True by simp
    from less.hyps[OF this, of gs1] show ?thesis using True bnd ij len1 by simp
  next
    case False
    have "loValue (gs1 ! nat k) \<le> loValue (gs1 ! nat l)" if "lo \<le> k \<and> k \<le> l \<and> l \<le> j" for k l
    proof -
      have "k = l" using that False by simp
      then show ?thesis by simp
    qed
    then show ?thesis using False by auto
  qed
  then obtain gs2 where call1: "(if lo < j then QuickSortGroupByLoValue gs1 lo j else Inr gs1) = Inr gs2"
    and len2: "length gs2 = length gs1" and ms2: "mset gs2 = mset gs1"
    and out2: "\<And>k. 0 \<le> k \<Longrightarrow> k < int (length gs1) \<Longrightarrow> k < lo \<or> j < k \<Longrightarrow> gs2 ! nat k = gs1 ! nat k"
    and orig2: "\<And>k. lo \<le> k \<Longrightarrow> k \<le> j \<Longrightarrow> \<exists>l. lo \<le> l \<and> l \<le> j \<and> gs2 ! nat k = gs1 ! nat l"
    and srt2: "\<And>k l. lo \<le> k \<Longrightarrow> k \<le> l \<Longrightarrow> l \<le> j \<Longrightarrow> loValue (gs2 ! nat k) \<le> loValue (gs2 ! nat l)"
    by blast
  have "\<exists>gs3. (if i < hi then QuickSortGroupByLoValue gs2 i hi else Inr gs2) = Inr gs3 \<and>
      length gs3 = length gs2 \<and> mset gs3 = mset gs2 \<and>
      (\<forall>k. 0 \<le> k \<and> k < int (length gs2) \<and> (k < i \<or> hi < k) \<longrightarrow> gs3 ! nat k = gs2 ! nat k) \<and>
      (\<forall>k. i \<le> k \<and> k \<le> hi \<longrightarrow> (\<exists>l. i \<le> l \<and> l \<le> hi \<and> gs3 ! nat k = gs2 ! nat l)) \<and>
      (\<forall>k l. i \<le> k \<and> k \<le> l \<and> l \<le> hi \<longrightarrow> loValue (gs3 ! nat k) \<le> loValue (gs3 ! nat l))"
  proof (cases "i < hi")
    case True
    have "nat (hi - i) < nat (hi - lo)" using ij True by simp
    from less.hyps[OF this, of gs2] show ?thesis using True bnd ij len1 len2 by simp
  next
    case False
    have "loValue (gs2 ! nat k) \<le> loValue (gs2 ! nat l)" if "i \<le> k \<and> k \<le> l \<and> l \<le> hi" for k l
    proof -
      have "k = l" using that False by simp
      then show ?thesis by simp
    qed
    then show ?thesis using False by auto
  qed
  then obtain gs3 where call2: "(if i < hi then QuickSortGroupByLoValue gs2 i hi else Inr gs2) = Inr gs3"
    and len3: "length gs3 = length gs2" and ms3: "mset gs3 = mset gs2"
    and out3: "\<And>k. 0 \<le> k \<Longrightarrow> k < int (length gs2) \<Longrightarrow> k < i \<or> hi < k \<Longrightarrow> gs3 ! nat k = gs2 ! nat k"
    and orig3: "\<And>k. i \<le> k \<Longrightarrow> k \<le> hi \<Longrightarrow> \<exists>l. i \<le> l \<and> l \<le> hi \<and> gs3 ! nat k = gs2 ! nat l"
    and srt3: "\<And>k l. i \<le> k \<Longrightarrow> k \<le> l \<Longrightarrow> l \<le> hi \<Longrightarrow> loValue (gs3 ! nat k) \<le> loValue (gs3 ! nat l)"
    by blast
  have lens: "length gs1 = length gs" "length gs2 = length gs" "length gs3 = length gs"
    using len1 len2 len3 by simp_all
  have res: "QuickSortGroupByLoValue gs lo hi = Inr gs3"
    using rd bnd(3) part call1 call2 by (intro QuickSort_unfold) auto
  have inb: "0 \<le> k \<and> k < int (length gs)" if "lo \<le> k" "k \<le> hi" for k
    using that bnd by simp
  \<comment> \<open>what the second array holds, in terms of the partitioned one\<close>
  have g2: "\<exists>l. lo \<le> l \<and> l \<le> hi \<and> (k \<le> j \<longrightarrow> l \<le> j) \<and> (j < k \<longrightarrow> l = k) \<and> gs2 ! nat k = gs1 ! nat l"
    if k: "lo \<le> k" "k \<le> hi" for k
  proof (cases "k \<le> j")
    case True
    then obtain l where "lo \<le> l" "l \<le> j" "gs2 ! nat k = gs1 ! nat l" using orig2 k by blast
    then show ?thesis using True ij by (intro exI[of _ l]) auto
  next
    case False
    then have "gs2 ! nat k = gs1 ! nat k" using out2[of k] inb[OF k] lens by simp
    then show ?thesis using False k by (intro exI[of _ k]) auto
  qed
  have g3: "\<exists>l. lo \<le> l \<and> l \<le> hi \<and> (k < i \<longrightarrow> l < i) \<and> (j < k \<longrightarrow> j < l) \<and> gs3 ! nat k = gs1 ! nat l"
    if k: "lo \<le> k" "k \<le> hi" for k
  proof (cases "k < i")
    case True
    then have e: "gs3 ! nat k = gs2 ! nat k" using out3[of k] inb[OF k] lens by simp
    from g2[OF k] obtain l where "lo \<le> l" "l \<le> hi" "k \<le> j \<longrightarrow> l \<le> j" "j < k \<longrightarrow> l = k" "gs2 ! nat k = gs1 ! nat l"
      by blast
    then show ?thesis using e True ij by (intro exI[of _ l]) auto
  next
    case False
    then have "i \<le> k" by simp
    from orig3[OF this k(2)] obtain m where m: "i \<le> m" "m \<le> hi" "gs3 ! nat k = gs2 ! nat m" by blast
    have "gs2 ! nat m = gs1 ! nat m" using out2[of m] inb[of m] m ij lens by simp
    then show ?thesis using m False ij by (intro exI[of _ m]) auto
  qed
  have Lx: "loValue (gs3 ! nat k) \<le> x" if k: "lo \<le> k" "k \<le> hi" "k < i" for k
  proof -
    from g3[OF k(1,2)] obtain l where "lo \<le> l" "l < i" "gs3 ! nat k = gs1 ! nat l" using k by blast
    then show ?thesis using L1 by simp
  qed
  have Rx: "x \<le> loValue (gs3 ! nat k)" if k: "lo \<le> k" "k \<le> hi" "j < k" for k
  proof -
    from g3[OF k(1,2)] obtain l where "l \<le> hi" "j < l" "gs3 ! nat k = gs1 ! nat l" using k by blast
    then show ?thesis using R1 by simp
  qed
  have SL: "loValue (gs3 ! nat k) \<le> loValue (gs3 ! nat l)" if kl: "lo \<le> k" "k \<le> l" "l \<le> j" for k l
  proof -
    have "gs3 ! nat k = gs2 ! nat k" using out3[of k] inb[of k] kl ij lens by simp
    moreover have "gs3 ! nat l = gs2 ! nat l" using out3[of l] inb[of l] kl ij lens by simp
    ultimately show ?thesis using srt2[OF kl] by simp
  qed
  have srt: "loValue (gs3 ! nat k) \<le> loValue (gs3 ! nat l)" if kl: "lo \<le> k" "k \<le> l" "l \<le> hi" for k l
  proof -
    consider "l \<le> j" | "i \<le> k" | "j < l" "k < i" by linarith
    then show ?thesis
    proof cases
      case 1
      then show ?thesis using SL kl by simp
    next
      case 2
      then show ?thesis using srt3 kl by simp
    next
      case 3
      have "loValue (gs3 ! nat k) \<le> x" using Lx[of k] kl 3 by simp
      moreover have "x \<le> loValue (gs3 ! nat l)" using Rx[of l] kl 3 by simp
      ultimately show ?thesis by simp
    qed
  qed
  have out: "gs3 ! nat k = gs ! nat k" if k: "0 \<le> k" "k < int (length gs)" "k < lo \<or> hi < k" for k
  proof -
    have "gs3 ! nat k = gs2 ! nat k" using out3[of k] k ij lens by auto
    also have "\<dots> = gs1 ! nat k" using out2[of k] k ij lens by auto
    also have "\<dots> = gs ! nat k" using out1[of k] k by auto
    finally show ?thesis .
  qed
  have orig: "\<exists>l. lo \<le> l \<and> l \<le> hi \<and> gs3 ! nat k = gs ! nat l" if k: "lo \<le> k" "k \<le> hi" for k
  proof -
    from g3[OF k] obtain m where m: "lo \<le> m" "m \<le> hi" "gs3 ! nat k = gs1 ! nat m" by blast
    from orig1[OF m(1,2)] obtain l where "lo \<le> l" "l \<le> hi" "gs1 ! nat m = gs ! nat l" by blast
    then show ?thesis using m by (intro exI[of _ l]) simp
  qed
  have "mset gs3 = mset gs" using ms1 ms2 ms3 by simp
  then show ?case using res lens(3) out orig srt by blast
qed

lemma QuickSort_sorts:
  assumes "gs \<noteq> []"
  shows "\<exists>gs'. QuickSortGroupByLoValue gs 0 (int (length gs) - 1) = Inr gs' \<and>
           mset gs' = mset gs \<and> sorted (map loValue gs')"
proof -
  have "\<exists>gs'. QuickSortGroupByLoValue gs 0 (int (length gs) - 1) = Inr gs' \<and>
      length gs' = length gs \<and> mset gs' = mset gs \<and>
      (\<forall>k. 0 \<le> k \<and> k < int (length gs) \<and> (k < 0 \<or> int (length gs) - 1 < k) \<longrightarrow> gs' ! nat k = gs ! nat k) \<and>
      (\<forall>k. 0 \<le> k \<and> k \<le> int (length gs) - 1 \<longrightarrow> (\<exists>l. 0 \<le> l \<and> l \<le> int (length gs) - 1 \<and> gs' ! nat k = gs ! nat l)) \<and>
      (\<forall>k l. 0 \<le> k \<and> k \<le> l \<and> l \<le> int (length gs) - 1 \<longrightarrow> loValue (gs' ! nat k) \<le> loValue (gs' ! nat l))"
    using assms by (intro QuickSort_correct) (auto simp: Suc_le_eq)
  then obtain gs' where r: "QuickSortGroupByLoValue gs 0 (int (length gs) - 1) = Inr gs'"
    and len: "length gs' = length gs" and ms: "mset gs' = mset gs"
    and srt: "\<And>k l. 0 \<le> k \<Longrightarrow> k \<le> l \<Longrightarrow> l \<le> int (length gs) - 1 \<Longrightarrow> loValue (gs' ! nat k) \<le> loValue (gs' ! nat l)"
    by blast
  have "sorted (map loValue gs')"
    unfolding sorted_iff_nth_mono
  proof (intro allI impI)
    fix a b assume ab: "a \<le> b" "b < length (map loValue gs')"
    then have "loValue (gs' ! nat (int a)) \<le> loValue (gs' ! nat (int b))"
      using len by (intro srt) auto
    then show "map loValue gs' ! a \<le> map loValue gs' ! b" using ab by simp
  qed
  then show ?thesis using r ms by blast
qed

section \<open>Properties of ComputeFDR\<close>

lemma draw_percentiles_length: "draw_percentiles U n rng = (ps, rng') \<Longrightarrow> length ps = n"
  by (induction n arbitrary: rng ps) (auto simp: Let_def split: prod.splits)

lemma ComputeLoValue_returns: "ps \<noteq> [] \<Longrightarrow> \<exists>lo. ComputeLoValue cdf ps mp = Inr lo"
  by (simp add: ComputeLoValue_def)

lemma ComputeLoValue_Inr_nonempty: "ComputeLoValue cdf ps mp = Inr lo \<Longrightarrow> ps \<noteq> []"
  by (auto simp: ComputeLoValue_def split: if_splits)


lemma rand_pass_returns:
  assumes "\<forall>g\<in>set gs. 0 < itemNum g"
  shows "\<exists>los rng'. rand_pass cdf U mp gs rng = Inr (los, rng')"
  using assms
proof (induction gs arbitrary: rng)
  case Nil
  then show ?case by simp
next
  case (Cons g gs)
  obtain ps rng1 where d: "draw_percentiles U (itemNum g) rng = (ps, rng1)" by fastforce
  have "length ps = itemNum g" using d by (rule draw_percentiles_length)
  then have "ps \<noteq> []" using Cons.prems by auto
  then obtain lo where lo: "ComputeLoValue cdf ps mp = Inr lo"
    using ComputeLoValue_returns by blast
  obtain rest rng' where "rand_pass cdf U mp gs rng1 = Inr (rest, rng')"
    using Cons.IH[of rng1] Cons.prems by auto
  then show ?case using d lo by simp
qed


lemma rand_passes_returns:
  assumes "\<forall>g\<in>set gs. 0 < itemNum g"
  shows "\<exists>pool rng'. rand_passes cdf U mp gs n rng = Inr (pool, rng')"
proof (induction n arbitrary: rng)
  case 0
  then show ?case by simp
next
  case (Suc n)
  obtain los rng1 where "rand_pass cdf U mp gs rng = Inr (los, rng1)"
    using rand_pass_returns[OF assms, of cdf U mp rng] by blast
  moreover obtain rest rng' where "rand_passes cdf U mp gs n rng1 = Inr (rest, rng')"
    using Suc.IH[of rng1] by blast
  ultimately show ?case by simp
qed

lemma assign_fdr_nth:
  "length (assign_fdr pool n i gs) = length gs \<and>
   (\<forall>k<length gs. assign_fdr pool n i gs ! k = (gs ! k)\<lparr>fdr := fdr_value pool n (i + k) (loValue (gs ! k))\<rparr>)"
proof (induction gs arbitrary: i)
  case Nil
  then show ?case by simp
next
  case (Cons g gs)
  show ?case
  proof (intro conjI allI impI)
    show "length (assign_fdr pool n i (g # gs)) = length (g # gs)" using Cons.IH by simp
  next
    fix k assume "k < length (g # gs)"
    then show "assign_fdr pool n i (g # gs) ! k = ((g # gs) ! k)\<lparr>fdr := fdr_value pool n (i + k) (loValue ((g # gs) ! k))\<rparr>"
      using Cons.IH[of "Suc i"] by (cases k) auto
  qed
qed

lemma fdr_value_nonneg: "0 \<le> fdr_value pool n i lo"
  by (simp add: fdr_value_def bTreeSearchingF_def)

lemma fdr_value_formula:
  "fdr_value pool n i lo =
     real (length (filter (\<lambda>v. v < lo - 1 / 10 ^ 9) pool) + length (filter (\<lambda>v. v < lo + 1 / 10 ^ 9) pool) + 1)
       / (2 * real (length pool) * (real i + 0.5)) * real n"
  by (simp add: fdr_value_def bTreeSearchingF_def EPS_def)

lemma clamp_last_nth:
  assumes "gs \<noteq> []"
  shows "length (clamp_last gs) = length gs \<and>
         (\<forall>k<length gs. clamp_last gs ! k =
            (if k = length gs - 1 then (gs ! k)\<lparr>fdr := min 1 (fdr (gs ! k))\<rparr> else gs ! k))"
proof -
  have "length gs - 1 < length gs" using assms by (cases gs) auto
  then show ?thesis
    by (auto simp: clamp_last_def Let_def min_def nth_list_update)
qed

lemma sweep_spec:
  assumes "i \<le> length gs"
  shows "length (sweep i gs) = length gs \<and>
         (\<forall>k\<ge>i. sweep i gs ! k = gs ! k) \<and>
         (\<forall>k<i. sweep i gs ! k = (gs ! k)\<lparr>fdr := min (fdr (gs ! k)) (fdr (sweep i gs ! Suc k))\<rparr>)"
  using assms
proof (induction i arbitrary: gs)
  case 0
  then show ?case by simp
next
  case (Suc i)
  let ?v = "(gs ! i)\<lparr>fdr := min (fdr (gs ! i)) (fdr (gs ! Suc i))\<rparr>"
  let ?gs' = "gs[i := ?v]"
  have step: "sweep (Suc i) gs = sweep i ?gs'"
    by (simp add: min_def not_less)
  have il: "i < length gs" using Suc.prems by simp
  have "i \<le> length ?gs'" using il by simp
  note ih = Suc.IH[OF this]
  have len: "length (sweep i ?gs') = length gs" using ih by simp
  have ge: "sweep i ?gs' ! k = ?gs' ! k" if "i \<le> k" for k using ih that by blast
  have lt: "sweep i ?gs' ! k = (?gs' ! k)\<lparr>fdr := min (fdr (?gs' ! k)) (fdr (sweep i ?gs' ! Suc k))\<rparr>"
    if "k < i" for k using ih that by blast
  show ?case unfolding step
  proof (intro conjI allI impI)
    show "length (sweep i ?gs') = length gs" by (rule len)
  next
    fix k assume "Suc i \<le> k"
    then show "sweep i ?gs' ! k = gs ! k" using ge[of k] by simp
  next
    fix k assume k: "k < Suc i"
    show "sweep i ?gs' ! k = (gs ! k)\<lparr>fdr := min (fdr (gs ! k)) (fdr (sweep i ?gs' ! Suc k))\<rparr>"
    proof (cases "k = i")
      case True
      have "sweep i ?gs' ! i = ?v" using ge[of i] il by simp
      moreover have "sweep i ?gs' ! Suc i = gs ! Suc i" using ge[of "Suc i"] by simp
      ultimately show ?thesis using True by simp
    next
      case False
      then have "k < i" using k by simp
      then show ?thesis using lt[of k] by simp
    qed
  qed
qed

lemma sweep_nonneg:
  assumes "i < length gs" and "\<forall>k<length gs. 0 \<le> fdr (gs ! k)"
  shows "\<forall>k<length gs. 0 \<le> fdr (sweep i gs ! k)"
  using assms
proof (induction i arbitrary: gs)
  case 0
  then show ?case by simp
next
  case (Suc i)
  let ?v = "(gs ! i)\<lparr>fdr := min (fdr (gs ! i)) (fdr (gs ! Suc i))\<rparr>"
  let ?gs' = "gs[i := ?v]"
  have step: "sweep (Suc i) gs = sweep i ?gs'"
    by (simp add: min_def not_less)
  have il: "i < length gs" "Suc i < length gs" using Suc.prems by simp_all
  have v: "0 \<le> fdr ?v" using Suc.prems(2) il by simp
  have "\<forall>k<length ?gs'. 0 \<le> fdr (?gs' ! k)"
  proof (intro allI impI)
    fix k assume k: "k < length ?gs'"
    show "0 \<le> fdr (?gs' ! k)"
    proof (cases "k = i")
      case True
      then show ?thesis using v il by simp
    next
      case False
      then show ?thesis using Suc.prems(2) k by simp
    qed
  qed
  moreover have "i < length ?gs'" using il by simp
  ultimately have "\<forall>k<length ?gs'. 0 \<le> fdr (sweep i ?gs' ! k)" by (rule Suc.IH[rotated])
  then show ?case unfolding step by simp
qed

lemma ComputeFDR_assign_parts:
  assumes "ComputeFDR_assign cdf PlantSeeds Uniform groups mp numOfRandPass rng = Inr (groups1, randLoValue, rng1)"
  shows "groups \<noteq> [] \<and> 0 < int (length groups) * ComputeFDR_scanPass numOfRandPass (int (length groups)) \<and>
    (\<exists>pool sorted_groups.
       rand_passes cdf Uniform mp groups (nat (ComputeFDR_scanPass numOfRandPass (int (length groups))))
         (PlantSeeds 123456 rng) = Inr (pool, rng1) \<and>
       randLoValue = QuicksortF pool \<and>
       QuickSortGroupByLoValue groups 0 (int (length groups) - 1) = Inr sorted_groups \<and>
       groups1 = assign_fdr randLoValue (length groups) 0 sorted_groups)"
  using assms
  by (auto simp: ComputeFDR_assign_def Let_def split: if_splits sum.splits)

lemma ComputeFDR_assign_props:
  assumes "ComputeFDR_assign cdf PlantSeeds Uniform groups mp numOfRandPass rng = Inr (groups1, randLoValue, rng1)"
  shows "length groups1 = length groups" and "groups \<noteq> []"
    and "sorted (map loValue groups1)"
    and "mset (map (\<lambda>g. g\<lparr>fdr := 0\<rparr>) groups1) = mset (map (\<lambda>g. g\<lparr>fdr := 0\<rparr>) groups)"
    and "sorted randLoValue"
    and "\<forall>i<length groups1. fdr (groups1 ! i) = fdr_value randLoValue (length groups) i (loValue (groups1 ! i))"
proof -
  from ComputeFDR_assign_parts[OF assms] obtain pool sg where
    ne: "groups \<noteq> []" and
    r: "randLoValue = QuicksortF pool" and
    q: "QuickSortGroupByLoValue groups 0 (int (length groups) - 1) = Inr sg" and
    g1: "groups1 = assign_fdr randLoValue (length groups) 0 sg"
    by blast
  from QuickSort_sorts[OF ne] q have sg: "mset sg = mset groups" "sorted (map loValue sg)" by auto
  have lsg: "length sg = length groups" using sg(1) by (metis size_mset)
  note a = assign_fdr_nth[of randLoValue "length groups" 0 sg]
  show "groups \<noteq> []" by (rule ne)
  show len: "length groups1 = length groups" using a g1 lsg by simp
  have nth: "groups1 ! k = (sg ! k)\<lparr>fdr := fdr_value randLoValue (length groups) k (loValue (sg ! k))\<rparr>"
    if "k < length sg" for k using a g1 that by simp
  have "map loValue groups1 = map loValue sg"
    using len lsg nth by (intro nth_equalityI) auto
  then show "sorted (map loValue groups1)" using sg(2) by simp
  have "map (\<lambda>g. g\<lparr>fdr := 0\<rparr>) groups1 = map (\<lambda>g. g\<lparr>fdr := 0\<rparr>) sg"
    using len lsg nth by (intro nth_equalityI) auto
  then show "mset (map (\<lambda>g. g\<lparr>fdr := 0\<rparr>) groups1) = mset (map (\<lambda>g. g\<lparr>fdr := 0\<rparr>) groups)"
    using sg(1) by (metis mset_map)
  show "sorted randLoValue" using r by (simp add: QuicksortF_def)
  show "\<forall>i<length groups1. fdr (groups1 ! i) = fdr_value randLoValue (length groups) i (loValue (groups1 ! i))"
    using nth len lsg by simp
qed

text \<open>
  C3. After the pooled synthetic lo-values and the groups have been sorted ascending (the
  groups by \<open>loValue\<close>), the \<open>i\<close>-th group, counted from 0, is assigned
  \<open>fdr = rankInPool / (2 * poolSize * (i + 0.5)) * groupCount\<close>, where \<open>rankInPool\<close> is the
  number of pooled values less than \<open>loValue - 1e-9\<close> plus the number less than
  \<open>loValue + 1e-9\<close> plus 1, and \<open>poolSize\<close> is the number of pooled values.
\<close>

theorem ComputeFDR_assigned_fdr:
  assumes "ComputeFDR_assign cdf PlantSeeds Uniform groups maxPercentile numOfRandPass rng
             = Inr (groups1, randLoValue, rng1)"
    and "i < length groups1"
  shows "sorted randLoValue \<and> sorted (map loValue groups1) \<and>
         mset (map (\<lambda>g. g\<lparr>fdr := 0\<rparr>) groups1) = mset (map (\<lambda>g. g\<lparr>fdr := 0\<rparr>) groups) \<and>
         (let lo = loValue (groups1 ! i);
              rankInPool = length (filter (\<lambda>v. v < lo - 1 / 10 ^ 9) randLoValue)
                         + length (filter (\<lambda>v. v < lo + 1 / 10 ^ 9) randLoValue) + 1;
              poolSize = length randLoValue;
              groupCount = length groups
          in fdr (groups1 ! i) = real rankInPool / (2 * real poolSize * (real i + 0.5)) * real groupCount)"
  using ComputeFDR_assign_props[OF assms(1)] assms(2)
  by (simp add: Let_def fdr_value_formula)

lemma ComputeFDR_parts:
  assumes "ComputeFDR cdf PlantSeeds Uniform groups mp numOfRandPass rng = Inr (groups', rng')"
  shows "\<exists>groups1 pool.
           ComputeFDR_assign cdf PlantSeeds Uniform groups mp numOfRandPass rng = Inr (groups1, pool, rng') \<and>
           groups' = sweep (length groups1 - 1) (clamp_last groups1)"
  using assms by (auto simp: ComputeFDR_def split: sum.splits)

lemma ComputeFDR_props:
  assumes a: "ComputeFDR_assign cdf PlantSeeds Uniform groups mp numOfRandPass rng = Inr (groups1, pool, rng')"
    and g': "groups' = sweep (length groups1 - 1) (clamp_last groups1)"
  shows "length groups' = length groups1" and "groups1 \<noteq> []"
    and "\<forall>k<length groups1. loValue (groups' ! k) = loValue (groups1 ! k)"
    and "\<forall>k<length groups1. (groups' ! k)\<lparr>fdr := 0\<rparr> = (groups1 ! k)\<lparr>fdr := 0\<rparr>"
    and "\<forall>k<length groups1. 0 \<le> fdr (groups' ! k)"
    and "fdr (groups' ! (length groups1 - 1)) = min 1 (fdr (groups1 ! (length groups1 - 1)))"
    and "\<forall>i. Suc i < length groups1 \<longrightarrow> fdr (groups' ! i) = min (fdr (groups1 ! i)) (fdr (groups' ! Suc i))"
proof -
  let ?n = "length groups1"
  let ?c = "clamp_last groups1"
  note p = ComputeFDR_assign_props[OF a]
  show ne: "groups1 \<noteq> []" using p(1,2) by auto
  then have n: "0 < ?n" by simp
  note c = clamp_last_nth[OF ne]
  have lc: "length ?c = ?n" using c by simp
  have cn: "?c ! k = (if k = ?n - 1 then (groups1 ! k)\<lparr>fdr := min 1 (fdr (groups1 ! k))\<rparr> else groups1 ! k)"
    if "k < ?n" for k using c that by simp
  have "?n - 1 \<le> length ?c" using lc by simp
  note s = sweep_spec[OF this, folded g']
  show len: "length groups' = ?n" using s lc by simp
  have last: "groups' ! (?n - 1) = ?c ! (?n - 1)" using s by simp
  have below: "groups' ! k = (?c ! k)\<lparr>fdr := min (fdr (?c ! k)) (fdr (groups' ! Suc k))\<rparr>"
    if "k < ?n - 1" for k using s that by simp
  have shape: "\<exists>f. groups' ! k = (groups1 ! k)\<lparr>fdr := f\<rparr>" if k: "k < ?n" for k
  proof (cases "k = ?n - 1")
    case True
    then show ?thesis using last cn[OF k] by auto
  next
    case False
    then have "k < ?n - 1" using k by simp
    then show ?thesis using below[of k] cn[OF k] False by auto
  qed
  show "\<forall>k<?n. loValue (groups' ! k) = loValue (groups1 ! k)"
  proof (intro allI impI)
    fix k assume "k < ?n"
    from shape[OF this] obtain f where "groups' ! k = (groups1 ! k)\<lparr>fdr := f\<rparr>" by blast
    then show "loValue (groups' ! k) = loValue (groups1 ! k)" by simp
  qed
  show "\<forall>k<?n. (groups' ! k)\<lparr>fdr := 0\<rparr> = (groups1 ! k)\<lparr>fdr := 0\<rparr>"
  proof (intro allI impI)
    fix k assume "k < ?n"
    from shape[OF this] obtain f where "groups' ! k = (groups1 ! k)\<lparr>fdr := f\<rparr>" by blast
    then show "(groups' ! k)\<lparr>fdr := 0\<rparr> = (groups1 ! k)\<lparr>fdr := 0\<rparr>" by simp
  qed
  have "\<forall>k<length ?c. 0 \<le> fdr (?c ! k)"
  proof (intro allI impI)
    fix k assume "k < length ?c"
    then have k: "k < ?n" using lc by simp
    have "0 \<le> fdr (groups1 ! k)" using p(6) k by (simp add: fdr_value_nonneg)
    then show "0 \<le> fdr (?c ! k)" using cn[OF k] by auto
  qed
  moreover have "?n - 1 < length ?c" using lc n by simp
  ultimately have "\<forall>k<length ?c. 0 \<le> fdr (sweep (?n - 1) ?c ! k)" by (rule sweep_nonneg[rotated])
  then show "\<forall>k<?n. 0 \<le> fdr (groups' ! k)" using g' lc by simp
  have "?n - 1 < ?n" using n by simp
  from cn[OF this] show "fdr (groups' ! (?n - 1)) = min 1 (fdr (groups1 ! (?n - 1)))"
    using last by simp
  show "\<forall>i. Suc i < ?n \<longrightarrow> fdr (groups' ! i) = min (fdr (groups1 ! i)) (fdr (groups' ! Suc i))"
  proof (intro allI impI)
    fix i assume i: "Suc i < ?n"
    then have "i < ?n - 1" "i < ?n" "i \<noteq> ?n - 1" by simp_all
    then show "fdr (groups' ! i) = min (fdr (groups1 ! i)) (fdr (groups' ! Suc i))"
      using below[of i] cn[of i] by simp
  qed
qed

text \<open>
  C5. After \<open>ComputeFDR\<close> returns, the groups are sorted ascending by \<open>loValue\<close> (they are
  the input groups, rearranged, with new \<open>fdr\<close> values), every \<open>fdr\<close> lies in \<open>[0, 1]\<close>, and
  \<open>fdr\<close> is non-decreasing along this order. The last group's \<open>fdr\<close> is the assigned value
  clamped to at most 1, and every other \<open>fdr\<close> is the assigned value lowered to the final
  \<open>fdr\<close> of the next group when that is smaller.
\<close>

theorem ComputeFDR_sorted_monotone:
  assumes "ComputeFDR cdf PlantSeeds Uniform groups maxPercentile numOfRandPass rng = Inr (groups', rng')"
  shows "sorted (map loValue groups') \<and>
         mset (map (\<lambda>g. g\<lparr>fdr := 0\<rparr>) groups') = mset (map (\<lambda>g. g\<lparr>fdr := 0\<rparr>) groups) \<and>
         (\<forall>g\<in>set groups'. 0 \<le> fdr g \<and> fdr g \<le> 1) \<and>
         (\<forall>i. Suc i < length groups' \<longrightarrow> fdr (groups' ! i) \<le> fdr (groups' ! Suc i)) \<and>
         (\<exists>groups1 randLoValue.
            ComputeFDR_assign cdf PlantSeeds Uniform groups maxPercentile numOfRandPass rng
              = Inr (groups1, randLoValue, rng') \<and>
            length groups' = length groups1 \<and>
            fdr (last groups') = min 1 (fdr (last groups1)) \<and>
            (\<forall>i. Suc i < length groups' \<longrightarrow>
               fdr (groups' ! i) = min (fdr (groups1 ! i)) (fdr (groups' ! Suc i))))"
proof -
  from ComputeFDR_parts[OF assms] obtain groups1 pool where
    a: "ComputeFDR_assign cdf PlantSeeds Uniform groups maxPercentile numOfRandPass rng = Inr (groups1, pool, rng')"
    and g': "groups' = sweep (length groups1 - 1) (clamp_last groups1)"
    by blast
  note q = ComputeFDR_assign_props[OF a]
  note p = ComputeFDR_props[OF a g']
  let ?n = "length groups1"
  have ne': "groups' \<noteq> []" using p(1,2) by auto
  have "map loValue groups' = map loValue groups1"
    using p(1,3) by (intro nth_equalityI) auto
  then have s1: "sorted (map loValue groups')" using q(3) by simp
  have "map (\<lambda>g. g\<lparr>fdr := 0\<rparr>) groups' = map (\<lambda>g. g\<lparr>fdr := 0\<rparr>) groups1"
    using p(1,4) by (intro nth_equalityI) auto
  then have s2: "mset (map (\<lambda>g. g\<lparr>fdr := 0\<rparr>) groups') = mset (map (\<lambda>g. g\<lparr>fdr := 0\<rparr>) groups)"
    using q(4) by simp
  have mono: "\<forall>i. Suc i < length groups' \<longrightarrow> fdr (groups' ! i) \<le> fdr (groups' ! Suc i)"
  proof (intro allI impI)
    fix i assume "Suc i < length groups'"
    then have "fdr (groups' ! i) = min (fdr (groups1 ! i)) (fdr (groups' ! Suc i))"
      using p(1,7) by simp
    then show "fdr (groups' ! i) \<le> fdr (groups' ! Suc i)" by simp
  qed
  then have srt: "sorted (map fdr groups')"
    by (simp add: sorted_iff_nth_Suc)
  have lastv: "last groups' = groups' ! (?n - 1)" "last groups1 = groups1 ! (?n - 1)"
    using ne' p(1,2) by (simp_all add: last_conv_nth)
  have top: "fdr (groups' ! (?n - 1)) \<le> 1" using p(6) by simp
  have rng: "\<forall>g\<in>set groups'. 0 \<le> fdr g \<and> fdr g \<le> 1"
  proof
    fix g assume "g \<in> set groups'"
    then obtain k where k: "k < length groups'" "g = groups' ! k" by (auto simp: in_set_conv_nth)
    then have "map fdr groups' ! k \<le> map fdr groups' ! (?n - 1)"
      using srt p(1) by (intro sorted_nth_mono) auto
    then have "fdr g \<le> 1" using k top p(1) by simp
    moreover have "0 \<le> fdr g" using p(5) k p(1) by simp
    ultimately show "0 \<le> fdr g \<and> fdr g \<le> 1" by simp
  qed
  have "fdr (last groups') = min 1 (fdr (last groups1))" using p(6) lastv by simp
  moreover have "\<forall>i. Suc i < length groups' \<longrightarrow>
               fdr (groups' ! i) = min (fdr (groups1 ! i)) (fdr (groups' ! Suc i))"
    using p(1,7) by simp
  ultimately show ?thesis using s1 s2 rng mono a p(1) by blast
qed



text \<open>
  C8. The FDR stage is deterministic: the generator is reseeded with the constant 123456
  before the first draw, so whatever state the generator is in when \<open>ComputeFDR\<close> is
  called, the same groups, cutoff and pass count give the same result. (Reseeding is taken
  to fix the generator's state, as the spec's "process-wide reseed" says.)
\<close>

theorem ComputeFDR_deterministic:
  assumes "\<forall>s s'. PlantSeeds 123456 s = PlantSeeds 123456 s'"
  shows "ComputeFDR cdf PlantSeeds Uniform groups maxPercentile numOfRandPass rng
         = ComputeFDR cdf PlantSeeds Uniform groups maxPercentile numOfRandPass rng'"
proof -
  have eq: "PlantSeeds 123456 rng = PlantSeeds 123456 rng'" using assms by blast
  show ?thesis unfolding ComputeFDR_def ComputeFDR_assign_def eq by (rule refl)
qed

lemma small_lo_values:
  "ComputeLoValue beta_cdf_whole [11/31, 2/31] (1/4) = Inr (120 / 961)"
  "ComputeLoValue beta_cdf_whole [6/31] (1/4) = Inr (6 / 31)"
  "ComputeLoValue beta_cdf_whole [18/31, 23/31, 7/31] (1/4) = Inr (15967 / 29791)"
  "ComputeLoValue beta_cdf_whole [21/31, 1/31] (1/4) = Inr (61 / 961)"
  "ComputeLoValue beta_cdf_whole [3/31] (1/4) = Inr (3 / 31)"
  "ComputeLoValue beta_cdf_whole [9/31, 27/31, 19/31] (1/4) = Inr (19143 / 29791)"
  by (simp_all add: ComputeLoValue_def QuicksortF_def ComputeLoValue_loop.simps order_stat_cdf_def
      beta_cdf_whole_def CDF_MAX_ERROR_def Let_def upt_rec binomial_eq_0 numeral_2_eq_2 numeral_3_eq_3)

lemma fdr_pool_run:
  "rand_passes beta_cdf_whole small_Uniform (1/4) fdr_groups 2 14 =
     Inr ([120 / 961, 6 / 31, 15967 / 29791, 61 / 961, 3 / 31, 19143 / 29791], 19)"
  by (simp add: numeral_2_eq_2 fdr_groups_def itemNum_def small_Uniform_def Let_def small_lo_values)

lemma fdr_partition_run: "partition_loop fdr_groups (3/10) 0 2 = Inr (fdr_sorted, 2, 0)"
  by (simp add: partition_loop.simps scan_up.simps scan_down.simps rd_loValue_def swap_groups_def
      fdr_groups_def fdr_sorted_def)

lemma fdr_pivot_run: "rd_loValue fdr_groups (c_div (0 + 2) 2) = Inr (3/10)"
  by (simp add: rd_loValue_def c_div_def fdr_groups_def)

lemma fdr_sort_run: "QuickSortGroupByLoValue fdr_groups 0 2 = Inr fdr_sorted"
  by (rule QuickSort_unfold[OF fdr_pivot_run _ fdr_partition_run]) simp_all

lemma fdr_groups_counts: "length fdr_groups = 3" "max_itemNum fdr_groups = 3"
  by (simp_all add: fdr_groups_def max_itemNum_def itemNum_def)

lemma fdr_pool_sorted:
  "QuicksortF [120 / 961, 6 / 31, 15967 / 29791, 61 / 961, 3 / 31, 19143 / 29791] = fdr_pool"
  by (simp add: QuicksortF_def fdr_pool_def)

lemma fdr_assign_loop_run: "assign_fdr fdr_pool 3 0 fdr_sorted = fdr_assigned"
  by (simp add: fdr_pool_def fdr_sorted_def fdr_assigned_def fdr_groups_def fdr_value_def
      bTreeSearchingF_def EPS_def)

lemma fdr_assign_run:
  "ComputeFDR_assign beta_cdf_whole small_PlantSeeds small_Uniform fdr_groups (1/4) 3 0
     = Inr (fdr_assigned, fdr_pool, 19)"
  by (simp add: ComputeFDR_assign_def Let_def fdr_groups_counts ComputeFDR_scanPass_def c_div_def
      small_PlantSeeds_def fdr_pool_run fdr_pool_sorted fdr_sort_run fdr_assign_loop_run)

lemma fdr_run:
  "ComputeFDR beta_cdf_whole small_PlantSeeds small_Uniform fdr_groups (1/4) 3 0 = Inr (fdr_final, 19)"
  by (simp add: ComputeFDR_def fdr_assign_run)
    (simp add: fdr_assigned_def fdr_final_def clamp_last_def numeral_2_eq_2)

theorem ComputeFDR_assigned_fdr_witness:
  "ComputeFDR_assign beta_cdf_whole small_PlantSeeds small_Uniform fdr_groups (1/4) 3 0
     = Inr (fdr_assigned, fdr_pool, 19) \<and>
   (1 :: nat) < length fdr_assigned \<and>
   loValue (fdr_assigned ! 1) = 3 / 10 \<and>
   length (filter (\<lambda>v. v < 3 / 10 - 1 / 10 ^ 9) fdr_pool) = 4 \<and>
   length (filter (\<lambda>v. v < 3 / 10 + 1 / 10 ^ 9) fdr_pool) = 4 \<and>
   length fdr_pool = 6 \<and>
   fdr (fdr_assigned ! 1) = 9 / (2 * 6 * (1 + 0.5)) * 3 \<and>
   sorted fdr_pool \<and> sorted (map loValue fdr_assigned)"
proof -
  have i: "1 < length fdr_assigned" by (simp add: fdr_assigned_def)
  have lo: "loValue (fdr_assigned ! 1) = 3 / 10" by (simp add: fdr_assigned_def fdr_groups_def)
  have cnt: "length (filter (\<lambda>v. v < 3 / 10 - 1 / 10 ^ 9) fdr_pool) = 4"
    "length (filter (\<lambda>v. v < 3 / 10 + 1 / 10 ^ 9) fdr_pool) = 4" "length fdr_pool = 6"
    by (simp_all add: fdr_pool_def)
  note t = ComputeFDR_assigned_fdr[OF fdr_assign_run i]
  from t have "fdr (fdr_assigned ! 1) = real (4 + 4 + 1) / (2 * real 6 * (real 1 + 0.5)) * real 3"
    unfolding Let_def lo cnt fdr_groups_counts by blast
  then have f: "fdr (fdr_assigned ! 1) = 9 / (2 * 6 * (1 + 0.5)) * 3" by simp
  show ?thesis
    using t fdr_assign_run i lo cnt f by blast
qed


theorem ComputeFDR_sorted_monotone_witness:
  "ComputeFDR beta_cdf_whole small_PlantSeeds small_Uniform fdr_groups (1/4) 3 0 = Inr (fdr_final, 19) \<and>
   map loValue fdr_final = [73 / 15625, 3 / 10, 16 / 25] \<and>
   map fdr fdr_final = [1 / 2, 1, 1] \<and>
   map fdr fdr_assigned = [1 / 2, 3 / 2, 11 / 10] \<and>
   sorted (map loValue fdr_final) \<and> sorted (map fdr fdr_final)"
proof -
  have v: "map loValue fdr_final = [73 / 15625, 3 / 10, 16 / 25]" "map fdr fdr_final = [1 / 2, 1, 1]"
    "map fdr fdr_assigned = [1 / 2, 3 / 2, 11 / 10]"
    by (simp_all add: fdr_final_def fdr_assigned_def fdr_groups_def)
  note t = ComputeFDR_sorted_monotone[OF fdr_run]
  have "sorted (map loValue fdr_final)" using t by blast
  moreover have "\<forall>i. Suc i < length fdr_final \<longrightarrow> fdr (fdr_final ! i) \<le> fdr (fdr_final ! Suc i)"
    using t by blast
  then have "sorted (map fdr fdr_final)" by (simp add: sorted_iff_nth_Suc)
  ultimately show ?thesis using fdr_run v by blast
qed

theorem ComputeFDR_deterministic_witness:
  "(\<forall>s s'. small_PlantSeeds 123456 s = small_PlantSeeds 123456 s') \<and>
   ComputeFDR beta_cdf_whole small_PlantSeeds small_Uniform fdr_groups (1/4) 3 7 = Inr (fdr_final, 19) \<and>
   ComputeFDR beta_cdf_whole small_PlantSeeds small_Uniform fdr_groups (1/4) 3 0 = Inr (fdr_final, 19)"
proof -
  have h: "\<forall>s s'. small_PlantSeeds 123456 s = small_PlantSeeds 123456 s'"
    by (simp add: small_PlantSeeds_def)
  show ?thesis
    using ComputeFDR_deterministic[where PlantSeeds = small_PlantSeeds and cdf = beta_cdf_whole
        and Uniform = small_Uniform and groups = fdr_groups and maxPercentile = "1/4"
        and numOfRandPass = 3 and rng = 7 and rng' = 0, OF h] fdr_run h
    by simp
qed

lemma ComputeLoValue_store_value:
  assumes "ComputeLoValue_store cdf (Some tmpArray) st percentiles num loValue_p maxPercentile = Inr (r, st')"
    and "st tmpArray = None" and "st (fst loValue_p) \<noteq> None"
  shows "\<exists>src dst lo. r = 0 \<and> st (fst percentiles) = Some src \<and> snd percentiles + nat num \<le> length src \<and>
           st (fst loValue_p) = Some dst \<and> snd loValue_p < length dst \<and>
           ComputeLoValue cdf (take (nat num) (drop (snd percentiles) src)) maxPercentile = Inr lo \<and>
           st' (fst loValue_p) = Some (dst[snd loValue_p := lo])"
proof -
  have ne: "fst loValue_p \<noteq> tmpArray" using assms(2,3) by auto
  from assms(1) obtain src where src: "st (fst percentiles) = Some src"
    and num: "0 < num" and fit: "snd percentiles + nat num \<le> length src"
    by (auto simp: ComputeLoValue_store_def Let_def split: if_splits option.splits)
  let ?copy = "take (nat num) (drop (snd percentiles) src)"
  let ?lo = "ComputeLoValue_loop cdf (QuicksortF ?copy) maxPercentile 0 1"
  from assms(3) obtain dst where dst: "st (fst loValue_p) = Some dst" by auto
  have res: "snd loValue_p < length dst \<and> r = 0 \<and>
             st' = (st(tmpArray \<mapsto> QuicksortF ?copy, fst loValue_p \<mapsto> dst[snd loValue_p := ?lo]))(tmpArray := None)"
    using assms(1) src num fit dst ne
    by (auto simp: ComputeLoValue_store_def Let_def split: if_splits)
  have "?copy \<noteq> []" using num fit by auto
  then have "ComputeLoValue cdf ?copy maxPercentile = Inr ?lo" by (simp add: ComputeLoValue_def)
  moreover have "st' (fst loValue_p) = Some (dst[snd loValue_p := ?lo])" using res ne by simp
  ultimately show ?thesis using src fit dst res by blast
qed

lemma ComputeLoValue_store_returns:
  assumes "0 < num" and "st (fst percentiles) = Some src" and "snd percentiles + nat num \<le> length src"
    and "st (fst loValue_p) = Some dst" and "snd loValue_p < length dst" and "st tmpArray = None"
  shows "\<exists>st'. ComputeLoValue_store cdf (Some tmpArray) st percentiles num loValue_p maxPercentile = Inr (0, st')"
proof -
  have "fst loValue_p \<noteq> tmpArray" using assms(4,6) by auto
  then show ?thesis using assms by (simp add: ComputeLoValue_store_def Let_def)
qed

text \<open>
  C10. \<open>ComputeLoValue\<close> leaves its input array unchanged: it sorts a private copy (a
  block that was not in use before the call), so every element of the caller's array
  holds the same value after the call as before. The cell that receives the result is
  taken not to be one of the \<open>num\<close> cells of the array, as at both call sites; no block
  other than the one that holds this cell changes.
\<close>

theorem ComputeLoValue_store_frame:
  assumes "ComputeLoValue_store cdf malloc_result st percentiles num loValue_p maxPercentile = Inr (r, st')"
    and "\<forall>tmpArray. malloc_result = Some tmpArray \<longrightarrow> st tmpArray = None"
    and "fst loValue_p \<noteq> fst percentiles \<or> snd loValue_p < snd percentiles
           \<or> snd percentiles + nat num \<le> snd loValue_p"
  shows "0 < num \<and> (\<forall>b. b \<noteq> fst loValue_p \<longrightarrow> st' b = st b) \<and>
         (\<forall>src. st (fst percentiles) = Some src \<longrightarrow>
            (\<exists>src'. st' (fst percentiles) = Some src' \<and> length src' = length src \<and>
               (\<forall>k < nat num. src' ! (snd percentiles + k) = src ! (snd percentiles + k))))"
proof (cases malloc_result)
  case None
  then show ?thesis using assms(1)
    by (auto simp: ComputeLoValue_store_def split: if_splits)
next
  case (Some tmpArray)
  then have fresh: "st tmpArray = None" using assms(2) by simp
  from assms(1) Some obtain src where src: "st (fst percentiles) = Some src"
    and num: "0 < num" and fit: "snd percentiles + nat num \<le> length src"
    by (auto simp: ComputeLoValue_store_def Let_def split: if_splits option.splits)
  have pt: "fst percentiles \<noteq> tmpArray" using src fresh by auto
  let ?copy = "take (nat num) (drop (snd percentiles) src)"
  let ?lo = "ComputeLoValue_loop cdf (QuicksortF ?copy) maxPercentile 0 1"
  let ?st2 = "st(tmpArray \<mapsto> QuicksortF ?copy)"
  from assms(1) Some src num fit obtain dst where dst: "?st2 (fst loValue_p) = Some dst"
    and off: "snd loValue_p < length dst"
    and st': "st' = (?st2(fst loValue_p \<mapsto> dst[snd loValue_p := ?lo]))(tmpArray := None)"
    by (auto simp: ComputeLoValue_store_def Let_def split: if_splits option.splits)
  have other: "st' b = st b" if "b \<noteq> fst loValue_p" for b
    using that st' fresh by (cases "b = tmpArray") auto
  have "\<exists>src'. st' (fst percentiles) = Some src' \<and> length src' = length src \<and>
               (\<forall>k < nat num. src' ! (snd percentiles + k) = src ! (snd percentiles + k))"
  proof (cases "fst loValue_p = fst percentiles")
    case False
    then have "st' (fst percentiles) = Some src" using other[of "fst percentiles"] src by simp
    then show ?thesis by simp
  next
    case True
    then have d: "dst = src" using dst src pt by simp
    have "st' (fst percentiles) = Some (src[snd loValue_p := ?lo])"
      using st' True pt d by simp
    moreover have "src[snd loValue_p := ?lo] ! (snd percentiles + k) = src ! (snd percentiles + k)"
      if "k < nat num" for k
      using assms(3) True that by (intro nth_list_update_neq) auto
    ultimately show ?thesis by simp
  qed
  then show ?thesis using num other src by auto
qed

lemma lo_store_run:
  "ComputeLoValue_store beta_cdf_whole (Some 2) lo_store (0, 0) 3 (1, 1) (1/4)
     = Inr (0, (lo_store(2 \<mapsto> [1/10, 1/5, 9/10], 1 \<mapsto> [0, 13/125]))(2 := None))"
  by (simp add: ComputeLoValue_store_def lo_store_def Let_def QuicksortF_def
      ComputeLoValue_loop.simps order_stat_cdf_def beta_cdf_whole_def CDF_MAX_ERROR_def
      upt_rec binomial_eq_0 numeral_2_eq_2 numeral_3_eq_3)

theorem ComputeLoValue_store_frame_witness:
  "ComputeLoValue_store beta_cdf_whole (Some 2) lo_store (0, 0) 3 (1, 1) (1/4)
     = Inr (0, (lo_store(2 \<mapsto> [1/10, 1/5, 9/10], 1 \<mapsto> [0, 13/125]))(2 := None)) \<and>
   lo_store 2 = None \<and>
   lo_store 0 = Some [9/10, 1/10, 1/5] \<and>
   ((lo_store(2 \<mapsto> [1/10, 1/5, 9/10], 1 \<mapsto> [0, 13/125]))(2 := None)) 0 = Some [9/10, 1/10, 1/5]"
proof -
  have fresh: "\<forall>tmpArray. Some 2 = Some tmpArray \<longrightarrow> lo_store tmpArray = None"
    by (simp add: lo_store_def)
  have na: "fst (1 :: nat, 1 :: nat) \<noteq> fst (0 :: nat, 0 :: nat) \<or> snd (1 :: nat, 1 :: nat) < snd (0 :: nat, 0 :: nat)
           \<or> snd (0 :: nat, 0 :: nat) + nat 3 \<le> snd (1 :: nat, 1 :: nat)"
    by simp
  have src: "lo_store 0 = Some [9/10, 1/10, 1/5]" by (simp add: lo_store_def)
  show ?thesis
    using ComputeLoValue_store_frame[OF lo_store_run fresh na] lo_store_run fresh src
    by simp
qed

lemma foldl_max_itemNum:
  "m \<le> foldl (\<lambda>m g. if itemNum g > m then itemNum g else m) m gs \<and>
   (\<forall>g\<in>set gs. itemNum g \<le> foldl (\<lambda>m g. if itemNum g > m then itemNum g else m) m gs)"
proof (induction gs arbitrary: m)
  case Nil
  then show ?case by simp
next
  case (Cons g gs)
  let ?m' = "if itemNum g > m then itemNum g else m"
  have "m \<le> ?m'" "itemNum g \<le> ?m'" by auto
  then show ?case using Cons.IH[of ?m'] by (auto intro: order_trans)
qed

lemma max_itemNum_pos:
  assumes "groups \<noteq> []" and "\<forall>g\<in>set groups. 0 < itemNum g"
  shows "0 < max_itemNum groups"
proof -
  obtain g where g: "g \<in> set groups" using assms(1) by (cases groups) auto
  then have "itemNum g \<le> max_itemNum groups"
    using foldl_max_itemNum[of 0 groups] by (simp add: max_itemNum_def)
  then show ?thesis using assms(2) g by (meson less_le_trans)
qed

lemma ComputeFDR_returns:
  assumes "groups \<noteq> []" and "\<forall>g\<in>set groups. 0 < itemNum g" and "0 \<le> numOfRandPass"
  shows "\<exists>groups' rng'. ComputeFDR cdf PlantSeeds Uniform groups maxPercentile numOfRandPass rng
           = Inr (groups', rng')"
proof -
  let ?n = "int (length groups)"
  let ?sp = "ComputeFDR_scanPass numOfRandPass ?n"
  have n: "0 < ?n" using assms(1) by simp
  have "?sp = numOfRandPass div ?n + 1"
    using assms(3) n
    by (cases "numOfRandPass = 0") (simp_all add: ComputeFDR_scanPass_def c_div_def sgn_if)
  moreover have "0 \<le> numOfRandPass div ?n" using assms(3) n by (simp add: pos_imp_zdiv_nonneg_iff)
  ultimately have sp: "0 < ?sp" by simp
  have prod: "0 < ?n * ?sp" using n sp by simp
  obtain pool rng1 where rp:
    "rand_passes cdf Uniform maxPercentile groups (nat ?sp) (PlantSeeds 123456 rng) = Inr (pool, rng1)"
    using rand_passes_returns[OF assms(2), of cdf Uniform maxPercentile "nat ?sp" "PlantSeeds 123456 rng"]
    by blast
  obtain sg where sg: "QuickSortGroupByLoValue groups 0 (?n - 1) = Inr sg"
    using QuickSort_sorts[OF assms(1)] by blast
  have "ComputeFDR_assign cdf PlantSeeds Uniform groups maxPercentile numOfRandPass rng
          = Inr (assign_fdr (QuicksortF pool) (length groups) 0 sg, QuicksortF pool, rng1)"
    using assms(1) max_itemNum_pos[OF assms(1,2)] prod rp sg
    by (simp add: ComputeFDR_assign_def Let_def)
  then show ?thesis by (simp add: ComputeFDR_def)
qed

end
